theory Spec2Isabelle
  imports Complex_Main "HOL-Library.Word" "HOL-Library.Multiset"
begin

section \<open>Gaussian elimination, sequential and multi-process\<close>

text \<open>
  A shallow embedding of \<^verbatim>\<open>include/gaussian.hpp\<close> and of the matrix value object of
  \<^verbatim>\<open>include/matrix.hpp\<close>.

  \<^item> \<^verbatim>\<open>std::size_t\<close> fields of the matrix are 64-bit words, so that the shape test
    \<^verbatim>\<open>cols != rows + 1\<close> wraps as the code does. Loop counters and indices are natural
    numbers: for a buffer that holds \<open>rows * cols\<close> elements none of them can wrap.
  \<^item> \<^verbatim>\<open>double\<close> is a type parameter \<open>'a\<close> with its operations collected in a record:
    the elimination code only divides, computes \<open>x - y * z\<close>, and compares a magnitude
    with \<^verbatim>\<open>kEpsilon\<close>. What is proved for every such record holds for IEEE-754
    binary64 in particular; numeric scenarios are evaluated on the exact reals.
  \<^item> Exceptions are values of a sum type; the operating system (memory mapping, pipes,
    processes) is explicit state, and the outcome of each system call is read from an
    environment record.
  \<^item> The workers of one round run concurrently in the program. The model runs the task of
    a worker at the moment it is sent; the rows of a round are disjoint and exclude the
    pivot row, and the order in which they are reduced is shown not to matter.
  \<^item> Indexing a \<^verbatim>\<open>std::vector\<close> or the shared buffer out of range is undefined behaviour
    in C++; statements about computed values assume a buffer of \<open>rows * cols\<close> elements,
    where every index \<open>r * width + c\<close> with \<open>r < rows\<close> and \<open>c < width\<close> is in range.
\<close>

subsection \<open>Data model\<close>

type_synonym size_t = "64 word"

text \<open>\<^verbatim>\<open>struct CppMatrix { std::size_t rows, cols; std::vector<double> data; }\<close>\<close>

record 'a CppMatrix =
  rows :: size_t
  cols :: size_t
  data :: "'a list"

text \<open>
  The arithmetic of \<^verbatim>\<open>double\<close> that the solver uses:
  \<open>fzero\<close> is \<^verbatim>\<open>0.0\<close>, \<open>fdiv x y\<close> is \<^verbatim>\<open>x / y\<close>, \<open>fmsub x y z\<close> is the value that
  \<^verbatim>\<open>x -= y * z\<close> stores, and \<open>tiny x\<close> is the test \<^verbatim>\<open>std::fabs(x) < kEpsilon\<close> with
  \<^verbatim>\<open>kEpsilon = 1e-12\<close>.
\<close>

record 'a arith =
  fzero :: 'a
  fdiv :: "'a \<Rightarrow> 'a \<Rightarrow> 'a"
  fmsub :: "'a \<Rightarrow> 'a \<Rightarrow> 'a \<Rightarrow> 'a"
  tiny :: "'a \<Rightarrow> bool"

definition real_arith :: "real arith" where
  "real_arith = \<lparr>fzero = 0, fdiv = (\<lambda>x y. x / y), fmsub = (\<lambda>x y z. x - y * z),
                 tiny = (\<lambda>x. \<bar>x\<bar> < 1 / 10 ^ 12)\<rparr>"

text \<open>
  Every \<^verbatim>\<open>throw\<close> of the header, and the one way a call can fail to return.
  \<open>InvalidShape\<close> is the \<^verbatim>\<open>std::invalid_argument\<close> of \<^verbatim>\<open>validate_augmented\<close>; the others
  are \<^verbatim>\<open>std::runtime_error\<close>s: \<open>SingularMatrix\<close> "Matrix is singular or ill-conditioned",
  \<open>MmapFailed\<close> "mmap failed", \<open>PipeFailed\<close> "pipe failed", \<open>ForkFailed\<close> "fork failed",
  \<open>WriteToWorkerFailed\<close> "write to worker failed", \<open>ReadFromWorkerFailed\<close>
  "read from worker failed", \<open>WorkerReportedFailure\<close> "worker reported failure",
  \<open>WaitpidFailed\<close> "waitpid failed", \<open>WorkerExitedAbnormally\<close> "worker exited abnormally".
  \<open>NeverReturns\<close> stands for a blocking \<^verbatim>\<open>read\<close> or \<^verbatim>\<open>waitpid\<close> on a live worker that
  has nothing to say: the call hangs, no exception is thrown.
\<close>

datatype error =
    InvalidShape
  | SingularMatrix
  | MmapFailed
  | PipeFailed
  | ForkFailed
  | WriteToWorkerFailed
  | ReadFromWorkerFailed
  | WorkerReportedFailure
  | WaitpidFailed
  | WorkerExitedAbnormally
  | NeverReturns

subsection \<open>Shape validation\<close>

definition validate_augmented :: "'a CppMatrix \<Rightarrow> error + unit" where
  "validate_augmented augmented =
     (if rows augmented = 0 then Inl InvalidShape
      else if cols augmented \<noteq> rows augmented + 1 then Inl InvalidShape
      else Inr ())"

subsection \<open>The sequential engine\<close>

text \<open>Row-major addressing, \<^verbatim>\<open>data[r * width + c]\<close>.\<close>

definition idx :: "nat \<Rightarrow> nat \<Rightarrow> nat \<Rightarrow> nat" where
  "idx width r c = r * width + c"

text \<open>
  One pass of the row loop of \<^verbatim>\<open>gaussian_sequential\<close>:
  \<^verbatim>\<open>factor = at(row, col) / pivot; for (k = col; k < width; ++k) at(row, k) -= factor * at(col, k);\<close>
\<close>

definition eliminate_row :: "'a arith \<Rightarrow> nat \<Rightarrow> nat \<Rightarrow> 'a \<Rightarrow> nat \<Rightarrow> 'a list \<Rightarrow> 'a list" where
  "eliminate_row A width col pivot row d =
     (let factor = fdiv A (d ! idx width row col) pivot
      in fold (\<lambda>k d. d[idx width row k := fmsub A (d ! idx width row k) factor (d ! idx width col k)])
           [col..<width] d)"

text \<open>The column loop: read the pivot, throw when it is too small, reduce the rows below.\<close>

function forward_elimination ::
  "'a arith \<Rightarrow> nat \<Rightarrow> nat \<Rightarrow> nat \<Rightarrow> 'a list \<Rightarrow> error + 'a list" where
  "forward_elimination A n width col d =
     (if col < n then
        (let pivot = d ! idx width col col
         in if tiny A pivot then Inl SingularMatrix
            else forward_elimination A n width (col + 1)
                   (fold (eliminate_row A width col pivot) [col + 1..<n] d))
      else Inr d)"
  by pat_completeness auto
termination
  by (relation "measure (\<lambda>(A, n, width, col, d). n - col)") auto

text \<open>
  Back substitution, \<^verbatim>\<open>for (i = n; i-- > 0;)\<close>: the argument \<open>Suc i\<close> is the counter before
  the decrement, \<open>i\<close> the row worked on. The same loop nest closes \<^verbatim>\<open>gaussian_sequential\<close>
  (over its private copy) and \<^verbatim>\<open>gaussian_parallel\<close> (over the shared buffer).
\<close>

fun back_substitution ::
  "'a arith \<Rightarrow> nat \<Rightarrow> nat \<Rightarrow> 'a list \<Rightarrow> nat \<Rightarrow> 'a list \<Rightarrow> error + 'a list" where
  "back_substitution A n width d 0 solution = Inr solution"
| "back_substitution A n width d (Suc i) solution =
     (let rhs = fold (\<lambda>j rhs. fmsub A rhs (d ! idx width i j) (solution ! j)) [i + 1..<n]
                  (d ! idx width i (width - 1));
          pivot = d ! idx width i i
      in if tiny A pivot then Inl SingularMatrix
         else back_substitution A n width d i (solution[i := fdiv A rhs pivot]))"

definition gaussian_sequential :: "'a arith \<Rightarrow> 'a CppMatrix \<Rightarrow> error + 'a list" where
  "gaussian_sequential A augmented =
     (case validate_augmented augmented of
        Inl e \<Rightarrow> Inl e
      | Inr _ \<Rightarrow>
          (let n = unat (rows augmented); width = unat (cols augmented)
           in case forward_elimination A n width 0 (data augmented) of
                Inl e \<Rightarrow> Inl e
              | Inr d \<Rightarrow> back_substitution A n width d n (replicate n (fzero A))))"

subsection \<open>The message protocol\<close>

text \<open>\<^verbatim>\<open>enum class WorkerCommand : std::size_t { Work = 1, Exit = 2 }\<close>\<close>

datatype WorkerCommand = Work | Exit

fun command_code :: "WorkerCommand \<Rightarrow> nat" where
  "command_code Work = 1"
| "command_code Exit = 2"

record WorkerTask =
  command :: nat
  column :: nat
  start_row :: nat
  end_row :: nat

record WorkerAck =
  status :: int

subsection \<open>The worker process\<close>

text \<open>
  The shared mapping as the workers see it: its cells, and the indices of the cells that
  worker processes have stored to, in the order of the stores.
\<close>

record 'a region =
  cells :: "'a list"
  stores :: "nat list"

datatype wstate = Ready | Terminated nat

text \<open>One pass of the row loop of \<^verbatim>\<open>worker_loop\<close>, storing through \<^verbatim>\<open>row_ptr\<close>.\<close>

definition worker_row :: "'a arith \<Rightarrow> nat \<Rightarrow> nat \<Rightarrow> 'a \<Rightarrow> nat \<Rightarrow> 'a region \<Rightarrow> 'a region" where
  "worker_row A width col pivot row m =
     (let factor = fdiv A (cells m ! idx width row col) pivot
      in fold (\<lambda>k m. m\<lparr>cells := (cells m)[idx width row k :=
                                   fmsub A (cells m ! idx width row k) factor (cells m ! idx width col k)],
                       stores := stores m @ [idx width row k]\<rparr>)
           [col..<width] m)"

text \<open>
  One iteration of \<^verbatim>\<open>for (;;)\<close> in \<^verbatim>\<open>worker_loop\<close>. \<open>rd\<close> is what \<^verbatim>\<open>fd_read_full\<close>
  delivered (\<open>None\<close> when it returned false) and \<open>wr_ok\<close> whether \<^verbatim>\<open>fd_write_full\<close> of the
  acknowledgement succeeds. The result is the state of the process after the iteration
  (\<open>Terminated c\<close> after \<^verbatim>\<open>_exit(c)\<close>), the acknowledgement that reached the pipe, and the
  shared region. Any command other than \<^verbatim>\<open>Exit\<close> is treated as work.
\<close>

definition worker_iteration ::
  "'a arith \<Rightarrow> nat \<Rightarrow> WorkerTask option \<Rightarrow> bool \<Rightarrow> 'a region \<Rightarrow> wstate \<times> WorkerAck option \<times> 'a region" where
  "worker_iteration A width rd wr_ok m =
     (case rd of
        None \<Rightarrow> (Terminated 1, None, m)
      | Some task \<Rightarrow>
          if command task = command_code Exit
          then (Terminated 0, (if wr_ok then Some \<lparr>status = 0\<rparr> else None), m)
          else
            (let m' = (if start_row task < end_row task
                       then (let pivot = cells m ! idx width (column task) (column task)
                             in fold (worker_row A width (column task) pivot)
                                  [start_row task..<end_row task] m)
                       else m)
             in if wr_ok then (Ready, Some \<lparr>status = 0\<rparr>, m') else (Terminated 1, None, m')))"

subsection \<open>The operating system as seen by the orchestrator\<close>

text \<open>
  \<^verbatim>\<open>struct WorkerProcess { pid_t pid; int write_fd; int read_fd; }\<close> together with the
  process it names: the state of the child, the acknowledgements waiting in its pipe to
  the parent, whether the parent has reaped it and closed its two descriptors.
\<close>

record WorkerProcess =
  proc :: wstate
  ack_pipe :: "WorkerAck list"
  reaped :: bool
  fds_closed :: bool

datatype spawn_outcome = Spawned | PipeFails | ForkFails

datatype wait_outcome = Reaped | Killed | WaitpidFails

text \<open>
  The outcomes of the system calls. \<open>cpu_available\<close> is \<^verbatim>\<open>sysconf(_SC_NPROCESSORS_ONLN)\<close>;
  \<open>spawn i\<close> is the fate of the \<open>i\<close>-th \<^verbatim>\<open>spawn_worker\<close>; \<open>task_write_ok k\<close>,
  \<open>worker_read_ok k\<close> and \<open>worker_write_ok k\<close> say whether the \<open>k\<close>-th task is written by the
  parent, read by the worker, and acknowledged by it; \<open>ack_read_ok k\<close> whether the parent's
  \<open>k\<close>-th acknowledgement read succeeds; \<open>wait i\<close> is what \<^verbatim>\<open>waitpid\<close> reports for worker
  \<open>i\<close> (retries after \<^verbatim>\<open>EINTR\<close> are not visible).
\<close>

record env =
  cpu_available :: int
  mmap_ok :: bool
  spawn :: "nat \<Rightarrow> spawn_outcome"
  task_write_ok :: "nat \<Rightarrow> bool"
  worker_read_ok :: "nat \<Rightarrow> bool"
  worker_write_ok :: "nat \<Rightarrow> bool"
  ack_read_ok :: "nat \<Rightarrow> bool"
  wait :: "nat \<Rightarrow> wait_outcome"

text \<open>An environment in which no system call fails.\<close>

definition healthy :: "int \<Rightarrow> env" where
  "healthy cpus =
     \<lparr>cpu_available = cpus, mmap_ok = True, spawn = (\<lambda>_. Spawned), task_write_ok = (\<lambda>_. True),
      worker_read_ok = (\<lambda>_. True), worker_write_ok = (\<lambda>_. True), ack_read_ok = (\<lambda>_. True),
      wait = (\<lambda>_. Reaped)\<rparr>"

text \<open>
  The resources of one call of \<^verbatim>\<open>gaussian_parallel\<close>: whether the shared region is mapped
  in the calling process, its contents, the vector \<^verbatim>\<open>workers\<close>, the tasks written so far
  (with the index of the worker addressed) and the number of acknowledgements read.
\<close>

record 'a sys =
  mapped :: bool
  shared :: "'a region"
  workers :: "WorkerProcess list"
  sent :: "(nat \<times> WorkerTask) list"
  acks_read :: nat

definition init_sys :: "'a sys" where
  "init_sys = \<lparr>mapped = False, shared = \<lparr>cells = [], stores = []\<rparr>, workers = [], sent = [],
               acks_read = 0\<rparr>"

subsection \<open>The orchestrator\<close>

text \<open>
  \<^verbatim>\<open>spawn_worker\<close>, called \<^verbatim>\<open>process_budget\<close> times: a failing \<^verbatim>\<open>pipe\<close> or \<^verbatim>\<open>fork\<close> throws,
  otherwise a child in its \<open>Ready\<close> loop is appended to \<^verbatim>\<open>workers\<close>.
\<close>

function spawn_workers :: "env \<Rightarrow> nat \<Rightarrow> nat \<Rightarrow> 'a sys \<Rightarrow> (error + unit) \<times> 'a sys" where
  "spawn_workers E process_budget i s =
     (if i < process_budget then
        (case spawn E i of
           PipeFails \<Rightarrow> (Inl PipeFailed, s)
         | ForkFails \<Rightarrow> (Inl ForkFailed, s)
         | Spawned \<Rightarrow>
             spawn_workers E process_budget (i + 1)
               (s\<lparr>workers := workers s @
                    [\<lparr>proc = Ready, ack_pipe = [], reaped = False, fds_closed = False\<rparr>]\<rparr>))
      else (Inr (), s))"
  by pat_completeness auto
termination
  by (relation "measure (\<lambda>(E, process_budget, i, s). process_budget - i)") auto

text \<open>
  \<^verbatim>\<open>send_task\<close>. The write fails when the environment says so or when the reader has
  exited. A worker in its \<open>Ready\<close> loop takes the task and runs one iteration on the shared
  region; the model runs it at once, the rows of different workers being disjoint.
\<close>

definition send_task ::
  "env \<Rightarrow> 'a arith \<Rightarrow> nat \<Rightarrow> nat \<Rightarrow> WorkerCommand \<Rightarrow> nat \<Rightarrow> nat \<Rightarrow> nat \<Rightarrow> 'a sys \<Rightarrow> (error + unit) \<times> 'a sys" where
  "send_task E A width worker_index cmd col start end s =
     (let task = \<lparr>command = command_code cmd, column = col, start_row = start, end_row = end\<rparr>;
          k = length (sent s);
          w = workers s ! worker_index
      in case proc w of
           Terminated c \<Rightarrow> (Inl WriteToWorkerFailed, s)
         | Ready \<Rightarrow>
             if \<not> task_write_ok E k then (Inl WriteToWorkerFailed, s)
             else
               (case worker_iteration A width (if worker_read_ok E k then Some task else None)
                       (worker_write_ok E k) (shared s) of
                  (st, ack, m) \<Rightarrow>
                    (Inr (),
                     s\<lparr>shared := m,
                       workers := (workers s)[worker_index :=
                          w\<lparr>proc := st,
                            ack_pipe := ack_pipe w @ (case ack of None \<Rightarrow> [] | Some a \<Rightarrow> [a])\<rparr>],
                       sent := sent s @ [(worker_index, task)]\<rparr>)))"

text \<open>
  \<^verbatim>\<open>wait_ack\<close>: a failed read throws, and so does end-of-file on the pipe of a worker that
  has exited; a nonzero status throws after the acknowledgement has been consumed.
\<close>

definition wait_ack :: "env \<Rightarrow> nat \<Rightarrow> 'a sys \<Rightarrow> (error + unit) \<times> 'a sys" where
  "wait_ack E worker_index s =
     (let w = workers s ! worker_index; k = acks_read s
      in if \<not> ack_read_ok E k then (Inl ReadFromWorkerFailed, s)
         else
           (case ack_pipe w of
              [] \<Rightarrow> (case proc w of
                       Ready \<Rightarrow> (Inl NeverReturns, s)
                     | Terminated c \<Rightarrow> (Inl ReadFromWorkerFailed, s))
            | ack # rest \<Rightarrow>
                (let s' = s\<lparr>workers := (workers s)[worker_index := w\<lparr>ack_pipe := rest\<rparr>],
                            acks_read := k + 1\<rparr>
                 in if status ack \<noteq> 0 then (Inl WorkerReportedFailure, s') else (Inr (), s'))))"

text \<open>
  The assignment loop of one column round (\<^verbatim>\<open>for (; assigned < active_workers; ++assigned)\<close>);
  it returns the final value of \<^verbatim>\<open>assigned\<close>.
\<close>

function dispatch ::
  "env \<Rightarrow> 'a arith \<Rightarrow> nat \<Rightarrow> nat \<Rightarrow> nat \<Rightarrow> nat \<Rightarrow> nat \<Rightarrow> nat \<Rightarrow> 'a sys \<Rightarrow> (error + nat) \<times> 'a sys" where
  "dispatch E A n width col active_workers chunk assigned s =
     (if assigned < active_workers then
        (let start = col + 1 + assigned * chunk
         in if start \<ge> n then (Inr assigned, s)
            else
              (let end = min n (start + chunk)
               in case send_task E A width assigned Work col start end s of
                    (Inl e, s') \<Rightarrow> (Inl e, s')
                  | (Inr _, s') \<Rightarrow> dispatch E A n width col active_workers chunk (assigned + 1) s'))
      else (Inr assigned, s))"
  by pat_completeness auto
termination
  by (relation "measure (\<lambda>(E, A, n, width, col, active_workers, chunk, assigned, s).
                   active_workers - assigned)") auto

text \<open>The barrier: \<^verbatim>\<open>for (idx = 0; idx < assigned; ++idx) wait_ack(idx);\<close>\<close>

function collect :: "env \<Rightarrow> nat \<Rightarrow> nat \<Rightarrow> 'a sys \<Rightarrow> (error + unit) \<times> 'a sys" where
  "collect E assigned i s =
     (if i < assigned then
        (case wait_ack E i s of
           (Inl e, s') \<Rightarrow> (Inl e, s')
         | (Inr _, s') \<Rightarrow> collect E assigned (i + 1) s')
      else (Inr (), s))"
  by pat_completeness auto
termination
  by (relation "measure (\<lambda>(E, assigned, i, s). assigned - i)") auto

text \<open>The loop over the pivot columns of \<^verbatim>\<open>gaussian_parallel\<close>.\<close>

function column_loop ::
  "env \<Rightarrow> 'a arith \<Rightarrow> nat \<Rightarrow> nat \<Rightarrow> nat \<Rightarrow> nat \<Rightarrow> 'a sys \<Rightarrow> (error + unit) \<times> 'a sys" where
  "column_loop E A n width process_budget col s =
     (if col < n then
        (let pivot = cells (shared s) ! idx width col col
         in if tiny A pivot then (Inl SingularMatrix, s)
            else
              (let remaining_rows = n - col - 1
               in if remaining_rows = 0 then column_loop E A n width process_budget (col + 1) s
                  else
                    (let active_workers = min process_budget remaining_rows;
                         chunk = (remaining_rows + active_workers - 1) div active_workers
                     in case dispatch E A n width col active_workers chunk 0 s of
                          (Inl e, s1) \<Rightarrow> (Inl e, s1)
                        | (Inr assigned, s1) \<Rightarrow>
                            (case collect E assigned 0 s1 of
                               (Inl e, s2) \<Rightarrow> (Inl e, s2)
                             | (Inr _, s2) \<Rightarrow>
                                 column_loop E A n width process_budget (col + 1) s2))))
      else (Inr (), s))"
  by pat_completeness auto
termination
  by (relation "measure (\<lambda>(E, A, n, width, process_budget, col, s). n - col)") auto

text \<open>
  \<^verbatim>\<open>for (idx = 0; idx < workers.size(); ++idx) send_task(idx, Exit, 0, 0, 0);\<close>
  The bound \<open>nworkers\<close> is \<^verbatim>\<open>workers.size()\<close>, which no step of the loop changes.
\<close>

function send_exits :: "env \<Rightarrow> 'a arith \<Rightarrow> nat \<Rightarrow> nat \<Rightarrow> nat \<Rightarrow> 'a sys \<Rightarrow> (error + unit) \<times> 'a sys" where
  "send_exits E A width nworkers i s =
     (if i < nworkers then
        (case send_task E A width i Exit 0 0 0 s of
           (Inl e, s') \<Rightarrow> (Inl e, s')
         | (Inr _, s') \<Rightarrow> send_exits E A width nworkers (i + 1) s')
      else (Inr (), s))"
  by pat_completeness auto
termination
  by (relation "measure (\<lambda>(E, A, width, nworkers, i, s). nworkers - i)") auto

text \<open>
  The last loop over \<^verbatim>\<open>workers\<close>: \<^verbatim>\<open>waitpid\<close>, the test of the exit status, and
  \<^verbatim>\<open>close_fd\<close> on both descriptors. Waiting for a child that is still in its \<open>Ready\<close> loop
  does not return.
\<close>

function reap_workers :: "env \<Rightarrow> nat \<Rightarrow> nat \<Rightarrow> 'a sys \<Rightarrow> (error + unit) \<times> 'a sys" where
  "reap_workers E nworkers i s =
     (if i < nworkers then
        (let w = workers s ! i
         in case wait E i of
              WaitpidFails \<Rightarrow> (Inl WaitpidFailed, s)
            | Killed \<Rightarrow>
                (Inl WorkerExitedAbnormally, s\<lparr>workers := (workers s)[i := w\<lparr>reaped := True\<rparr>]\<rparr>)
            | Reaped \<Rightarrow>
                (case proc w of
                   Ready \<Rightarrow> (Inl NeverReturns, s)
                 | Terminated c \<Rightarrow>
                     if c \<noteq> 0
                     then (Inl WorkerExitedAbnormally,
                           s\<lparr>workers := (workers s)[i := w\<lparr>reaped := True\<rparr>]\<rparr>)
                     else reap_workers E nworkers (i + 1)
                            (s\<lparr>workers := (workers s)[i := w\<lparr>reaped := True, fds_closed := True\<rparr>]\<rparr>)))
      else (Inr (), s))"
  by pat_completeness auto
termination
  by (relation "measure (\<lambda>(E, nworkers, i, s). nworkers - i)") auto

text \<open>
  \<^verbatim>\<open>process_budget\<close>: \<^verbatim>\<open>max_processes\<close> when positive, else the number of processors
  (1 when \<^verbatim>\<open>sysconf\<close> reports none), clamped to \<open>n - 1\<close> from above and 1 from below.
\<close>

definition process_budget_of :: "env \<Rightarrow> nat \<Rightarrow> nat \<Rightarrow> nat" where
  "process_budget_of E max_processes n =
     (let process_budget =
            (if max_processes > 0 then max_processes
             else (if cpu_available E > 0 then nat (cpu_available E) else 1))
      in max 1 (min process_budget (n - 1)))"

text \<open>
  \<^verbatim>\<open>std::copy\<close> into the fresh anonymous mapping, which the kernel hands out zero-filled
  and which has room for \<open>n * width\<close> elements. (A longer input overruns the mapping,
  which is undefined behaviour; the properties below are about inputs of \<open>n * width\<close>
  elements.)
\<close>

definition copy_in :: "'a arith \<Rightarrow> nat \<Rightarrow> 'a list \<Rightarrow> 'a list" where
  "copy_in A total_elements d = d @ replicate (total_elements - length d) (fzero A)"

text \<open>
  Everything \<^verbatim>\<open>gaussian_parallel\<close> does while \<^verbatim>\<open>matrix_guard\<close> is alive: copy the input,
  spawn the workers, run the column rounds, send \<^verbatim>\<open>Exit\<close>, collect the acknowledgements,
  reap, and substitute back.
\<close>

definition parallel_body ::
  "env \<Rightarrow> 'a arith \<Rightarrow> 'a CppMatrix \<Rightarrow> nat \<Rightarrow> 'a sys \<Rightarrow> (error + 'a list) \<times> 'a sys" where
  "parallel_body E A augmented max_processes s0 =
     (let n = unat (rows augmented);
          width = unat (cols augmented);
          s1 = s0\<lparr>shared := \<lparr>cells = copy_in A (n * width) (data augmented), stores = []\<rparr>\<rparr>;
          process_budget = process_budget_of E max_processes n
      in case spawn_workers E process_budget 0 s1 of
           (Inl e, s2) \<Rightarrow> (Inl e, s2)
         | (Inr _, s2) \<Rightarrow>
        (case column_loop E A n width process_budget 0 s2 of
           (Inl e, s3) \<Rightarrow> (Inl e, s3)
         | (Inr _, s3) \<Rightarrow>
        (case send_exits E A width (length (workers s3)) 0 s3 of
           (Inl e, s4) \<Rightarrow> (Inl e, s4)
         | (Inr _, s4) \<Rightarrow>
        (case collect E (length (workers s4)) 0 s4 of
           (Inl e, s5) \<Rightarrow> (Inl e, s5)
         | (Inr _, s5) \<Rightarrow>
        (case reap_workers E (length (workers s5)) 0 s5 of
           (Inl e, s6) \<Rightarrow> (Inl e, s6)
         | (Inr _, s6) \<Rightarrow>
             (back_substitution A n width (cells (shared s6)) n (replicate n (fzero A)), s6))))))"

text \<open>
  \<^verbatim>\<open>gaussian_parallel\<close>, from \<open>init_sys\<close>. After a successful \<^verbatim>\<open>mmap\<close> the destructor of
  \<^verbatim>\<open>SharedMatrixGuard\<close> runs \<^verbatim>\<open>munmap\<close> whenever the body is left, by \<^verbatim>\<open>return\<close> or by an
  exception; it does not run when the body hangs.
\<close>

definition gaussian_parallel ::
  "env \<Rightarrow> 'a arith \<Rightarrow> 'a CppMatrix \<Rightarrow> nat \<Rightarrow> (error + 'a list) \<times> 'a sys" where
  "gaussian_parallel E A augmented max_processes =
     (case validate_augmented augmented of
        Inl e \<Rightarrow> (Inl e, init_sys)
      | Inr _ \<Rightarrow>
          if unat (rows augmented) < 2 then (gaussian_sequential A augmented, init_sys)
          else if \<not> mmap_ok E then (Inl MmapFailed, init_sys)
          else
            (case parallel_body E A augmented max_processes (init_sys\<lparr>mapped := True\<rparr>) of
               (Inl NeverReturns, s) \<Rightarrow> (Inl NeverReturns, s)
             | (r, s) \<Rightarrow> (r, s\<lparr>mapped := False\<rparr>)))"

text \<open>
  \<^verbatim>\<open>make_predefined_matrix\<close> of the client: the 3 by 4 test system and the solution the
  client expects.
\<close>

definition make_predefined_matrix :: "real CppMatrix \<times> real list" where
  "make_predefined_matrix =
     (\<lparr>rows = 3, cols = 4,
       data = [ 2,  1, -1,   8,
               -3, -1,  2, -11,
               -2,  1,  2,  -3]\<rparr>,
      [2, 3, -1])"

subsection \<open>Notions used in the statements\<close>

text \<open>
  The row range that the assignment loop computes for worker \<open>k\<close> in the round of pivot
  column \<open>c\<close>: \<^verbatim>\<open>start = col + 1 + assigned * chunk\<close>,
  \<^verbatim>\<open>end = std::min(n, start + chunk)\<close>, and the task that carries it.
\<close>

definition range_start :: "nat \<Rightarrow> nat \<Rightarrow> nat \<Rightarrow> nat" where
  "range_start c chunk k = c + 1 + k * chunk"

definition range_end :: "nat \<Rightarrow> nat \<Rightarrow> nat \<Rightarrow> nat \<Rightarrow> nat" where
  "range_end n c chunk k = min n (range_start c chunk k + chunk)"

definition planned_task :: "nat \<Rightarrow> nat \<Rightarrow> nat \<Rightarrow> nat \<Rightarrow> WorkerTask" where
  "planned_task n c chunk k =
     \<lparr>command = command_code Work, column = c, start_row = range_start c chunk k,
      end_row = range_end n c chunk k\<rparr>"

text \<open>
  A description of the worker pool between two steps of the protocol: worker \<open>i\<close> is in
  state \<open>st i\<close>, and exactly the workers \<open>lo \<le> i < hi\<close> have one unread acknowledgement
  of status 0 in their pipe.
\<close>

definition pool :: "(nat \<Rightarrow> wstate) \<Rightarrow> nat \<Rightarrow> nat \<Rightarrow> 'a sys \<Rightarrow> bool" where
  "pool st lo hi s \<longleftrightarrow>
     (\<forall>i < length (workers s).
        proc (workers s ! i) = st i \<and>
        ack_pipe (workers s ! i) = (if lo \<le> i \<and> i < hi then [\<lparr>status = 0\<rparr>] else []))"



text \<open>
  Worker \<open>i\<close> has something for the orchestrator: an acknowledgement in its pipe, or
  the end-of-file of a process that has exited.
\<close>

definition answered :: "nat \<Rightarrow> 'a sys \<Rightarrow> bool" where
  "answered i s \<longleftrightarrow> ack_pipe (workers s ! i) \<noteq> [] \<or> proc (workers s ! i) \<noteq> Ready"


text \<open>
  The recursive equations of the loops are unfolded one step at a time, by hand.
\<close>

declare forward_elimination.simps [simp del] spawn_workers.simps [simp del]
  dispatch.simps [simp del] collect.simps [simp del] column_loop.simps [simp del]
  send_exits.simps [simp del] reap_workers.simps [simp del]

section \<open>Properties\<close>

subsection \<open>The parallel engine computes what the sequential engine computes\<close>

lemma cells_fold_store:
  "cells (fold (\<lambda>k m. m\<lparr>cells := (cells m)[idx w r k := fmsub A (cells m ! idx w r k) f (cells m ! idx w c k)],
                          stores := stores m @ [idx w r k]\<rparr>) ks m)
   = fold (\<lambda>k d. d[idx w r k := fmsub A (d ! idx w r k) f (d ! idx w c k)]) ks (cells m)"
  by (induction ks arbitrary: m) simp_all

lemma cells_worker_row:
  "cells (worker_row A w c p r m) = eliminate_row A w c p r (cells m)"
  by (simp add: worker_row_def eliminate_row_def Let_def cells_fold_store)

lemma cells_worker_rows:
  "cells (fold (worker_row A w c p) rs m) = fold (eliminate_row A w c p) rs (cells m)"
  by (induction rs arbitrary: m) (simp_all add: cells_worker_row)

lemma fold_update_other:
  "\<forall>k \<in> set ks. g k \<noteq> j \<Longrightarrow> fold (\<lambda>k d. d[g k := h k d]) ks d ! j = d ! j"
  by (induction ks arbitrary: d) simp_all

lemma eliminate_row_below:
  assumes "j < idx w r c"
  shows "eliminate_row A w c p r d ! j = d ! j"
proof -
  have "\<forall>k \<in> set [c..<w]. idx w r k \<noteq> j"
    using assms by (auto simp: idx_def)
  then show ?thesis
    unfolding eliminate_row_def Let_def by (rule fold_update_other)
qed

lemma eliminate_row_width0: "eliminate_row A 0 c p r d = d"
  by (simp add: eliminate_row_def)

lemma pivot_kept_row:
  assumes "c < r"
  shows "eliminate_row A w c p r d ! idx w c c = d ! idx w c c"
proof (cases "w = 0")
  case True
  then show ?thesis by (simp add: eliminate_row_width0)
next
  case False
  with assms have "c * w < r * w" by simp
  then have "idx w c c < idx w r c" by (simp add: idx_def)
  then show ?thesis by (rule eliminate_row_below)
qed

lemma pivot_kept_rows:
  "\<forall>r \<in> set rs. c < r \<Longrightarrow> fold (eliminate_row A w c p) rs d ! idx w c c = d ! idx w c c"
  by (induction rs arbitrary: d) (simp_all add: pivot_kept_row)

lemma length_eliminate_row: "length (eliminate_row A w c p r d) = length d"
proof -
  have "length (fold (\<lambda>k d. d[g k := h k d]) ks d) = length d" for g h ks and d :: "'a list"
    by (induction ks arbitrary: d) simp_all
  then show ?thesis by (simp add: eliminate_row_def Let_def)
qed


lemma poolD:
  "pool st lo hi s \<Longrightarrow> i < length (workers s) \<Longrightarrow>
     proc (workers s ! i) = st i \<and>
     ack_pipe (workers s ! i) = (if lo \<le> i \<and> i < hi then [\<lparr>status = 0\<rparr>] else [])"
  by (simp add: pool_def)

lemma send_task_healthy:
  assumes "pool st lo i s" and "i < length (workers s)" and "st i = Ready"
  shows "send_task (healthy cpus) A w i cmd c a b s =
     (Inr (),
      s\<lparr>shared := snd (snd (worker_iteration A w
                    (Some \<lparr>command = command_code cmd, column = c, start_row = a, end_row = b\<rparr>) True (shared s))),
        workers := (workers s)[i := (workers s ! i)
                      \<lparr>proc := (case cmd of Work \<Rightarrow> Ready | Exit \<Rightarrow> Terminated 0),
                       ack_pipe := [\<lparr>status = 0\<rparr>]\<rparr>],
        sent := sent s @ [(i, \<lparr>command = command_code cmd, column = c, start_row = a, end_row = b\<rparr>)]\<rparr>)"
proof -
  from poolD [OF assms(1,2)] assms(3)
  have w: "proc (workers s ! i) = Ready" "ack_pipe (workers s ! i) = []" by simp_all
  show ?thesis
    by (cases cmd) (simp_all add: send_task_def Let_def w healthy_def worker_iteration_def)
qed

lemma pool_after_send:
  assumes "pool st lo i s" and "lo \<le> i" and "i < length (workers s)"
  shows "pool (st(i := q)) lo (Suc i)
           (s\<lparr>shared := R, workers := (workers s)[i := (workers s ! i)\<lparr>proc := q, ack_pipe := [\<lparr>status = 0\<rparr>]\<rparr>],
              sent := X\<rparr>)"
  using assms by (auto simp: pool_def nth_list_update)

lemma wait_ack_healthy:
  assumes "pool st i m s" and "i < m" and "i < length (workers s)"
  shows "wait_ack (healthy cpus) i s =
     (Inr (), s\<lparr>workers := (workers s)[i := (workers s ! i)\<lparr>ack_pipe := []\<rparr>],
                acks_read := acks_read s + 1\<rparr>)"
proof -
  from poolD [OF assms(1,3)] assms(2)
  have "ack_pipe (workers s ! i) = [\<lparr>status = 0\<rparr>]" by simp
  then show ?thesis
    by (simp add: wait_ack_def Let_def healthy_def)
qed

lemma pool_after_wait:
  assumes "pool st i m s" and "i < length (workers s)"
  shows "pool st (Suc i) m
           (s\<lparr>workers := (workers s)[i := (workers s ! i)\<lparr>ack_pipe := []\<rparr>], acks_read := k\<rparr>)"
  using assms by (auto simp: pool_def nth_list_update)

lemma pool_empty_range: "hi \<le> lo \<Longrightarrow> pool st lo hi s \<longleftrightarrow> pool st 0 0 s"
  by (auto simp: pool_def)

lemma collect_healthy:
  assumes "pool st i m s" and "m \<le> length (workers s)"
  shows "\<exists>s'. collect (healthy cpus) m i s = (Inr (), s') \<and> pool st 0 0 s' \<and>
              shared s' = shared s \<and> length (workers s') = length (workers s) \<and>
              mapped s' = mapped s \<and> sent s' = sent s"
  using assms
proof (induction "m - i" arbitrary: i s)
  case 0
  then have "\<not> i < m" by simp
  moreover from 0 have "pool st 0 0 s" using pool_empty_range [of m i st s] by simp
  ultimately show ?case by (subst collect.simps) simp
next
  case (Suc d)
  then have lt: "i < m" and len: "i < length (workers s)" by simp_all
  let ?s = "s\<lparr>workers := (workers s)[i := (workers s ! i)\<lparr>ack_pipe := []\<rparr>],
               acks_read := acks_read s + 1\<rparr>"
  have step: "wait_ack (healthy cpus) i s = (Inr (), ?s)"
    using Suc.prems(1) lt len by (rule wait_ack_healthy)
  have "pool st (Suc i) m ?s" using Suc.prems(1) len by (rule pool_after_wait)
  moreover have "d = m - Suc i" using Suc.hyps(2) by simp
  moreover have "m \<le> length (workers ?s)" using Suc.prems(2) by simp
  ultimately obtain s' where
    "collect (healthy cpus) m (Suc i) ?s = (Inr (), s')" "pool st 0 0 s'"
    "shared s' = shared ?s" "length (workers s') = length (workers ?s)"
    "mapped s' = mapped ?s" "sent s' = sent ?s"
    using Suc.hyps(1) [of "Suc i" ?s] by blast
  then show ?case
    using lt step by (subst collect.simps) simp
qed


lemma cells_worker_iteration:
  "command task \<noteq> command_code Exit \<Longrightarrow>
   cells (snd (snd (worker_iteration A w (Some task) ok m))) =
     fold (eliminate_row A w (column task) (cells m ! idx w (column task) (column task)))
       [start_row task..<end_row task] (cells m)"
  by (simp add: worker_iteration_def Let_def cells_worker_rows)

lemma upt_glue: "i \<le> j \<Longrightarrow> j \<le> k \<Longrightarrow> [i..<j] @ [j..<k] = [i..<k]"
  by (metis le_Suc_ex upt_add_eq_append)

lemma dispatch_healthy:
  assumes "pool (\<lambda>_. Ready) 0 a s" and "active \<le> length (workers s)" and "a \<le> active"
  shows "\<exists>m s'. dispatch (healthy cpus) A n w c active chunk a s = (Inr m, s') \<and>
            a \<le> m \<and> m \<le> active \<and>
            (\<forall>k. a \<le> k \<and> k < m \<longrightarrow> range_start c chunk k < n) \<and>
            (m < active \<longrightarrow> n \<le> range_start c chunk m) \<and>
            pool (\<lambda>_. Ready) 0 m s' \<and> length (workers s') = length (workers s) \<and>
            mapped s' = mapped s \<and>
            sent s' = sent s @ map (\<lambda>k. (k, planned_task n c chunk k)) [a..<m] \<and>
            cells (shared s') =
              fold (eliminate_row A w c (cells (shared s) ! idx w c c))
                [min n (range_start c chunk a)..<min n (range_start c chunk active)] (cells (shared s))"
  using assms
proof (induction "active - a" arbitrary: a s)
  case 0
  then have "\<not> a < active" by simp
  then have "dispatch (healthy cpus) A n w c active chunk a s = (Inr a, s)"
    by (subst dispatch.simps) simp
  with 0 show ?case by simp
next
  case (Suc d)
  then have lt: "a < active" and len: "a < length (workers s)" by simp_all
  let ?p = "cells (shared s) ! idx w c c"
  let ?hi = "min n (range_start c chunk active)"
  show ?case
  proof (cases "n \<le> range_start c chunk a")
    case True
    then have "min n (range_start c chunk a) = n" by simp
    moreover have "?hi \<le> n" by simp
    ultimately have "[min n (range_start c chunk a)..<?hi] = []" by simp
    moreover have "dispatch (healthy cpus) A n w c active chunk a s = (Inr a, s)"
      using True lt by (subst dispatch.simps) (simp add: range_start_def)
    ultimately show ?thesis using True lt Suc.prems(1) by simp
  next
    case False
    let ?a = "range_start c chunk a" and ?b = "range_end n c chunk a"
    let ?task = "planned_task n c chunk a"
    let ?R = "snd (snd (worker_iteration A w (Some ?task) True (shared s)))"
    let ?s1 = "s\<lparr>shared := ?R,
                 workers := (workers s)[a := (workers s ! a)\<lparr>proc := Ready, ack_pipe := [\<lparr>status = 0\<rparr>]\<rparr>],
                 sent := sent s @ [(a, ?task)]\<rparr>"
    have send: "send_task (healthy cpus) A w a Work c ?a ?b s = (Inr (), ?s1)"
      using send_task_healthy [OF Suc.prems(1) len, of cpus A w Work c ?a ?b]
      by (simp add: planned_task_def)
    have cells1: "cells ?R = fold (eliminate_row A w c ?p) [?a..<?b] (cells (shared s))"
      using cells_worker_iteration [of ?task A w True "shared s"]
      by (simp add: planned_task_def)
    have "c < r" if "r \<in> set [?a..<?b]" for r
      using that by (simp add: range_start_def)
    then have pivot1: "cells ?R ! idx w c c = ?p"
      unfolding cells1 by (intro pivot_kept_rows) blast
    have pool1: "pool (\<lambda>_. Ready) 0 (Suc a) ?s1"
      using pool_after_send [OF Suc.prems(1) _ len, of Ready] by (simp add: fun_upd_idem)
    have "d = active - Suc a" using Suc.hyps(2) by simp
    moreover have "active \<le> length (workers ?s1)" using Suc.prems(2) by simp
    moreover have "Suc a \<le> active" using lt by simp
    ultimately obtain m s' where ih:
      "dispatch (healthy cpus) A n w c active chunk (Suc a) ?s1 = (Inr m, s')"
      "Suc a \<le> m" "m \<le> active"
      "\<forall>k. Suc a \<le> k \<and> k < m \<longrightarrow> range_start c chunk k < n"
      "m < active \<longrightarrow> n \<le> range_start c chunk m"
      "pool (\<lambda>_. Ready) 0 m s'" "length (workers s') = length (workers ?s1)"
      "mapped s' = mapped ?s1"
      "sent s' = sent ?s1 @ map (\<lambda>k. (k, planned_task n c chunk k)) [Suc a..<m]"
      "cells (shared s') =
         fold (eliminate_row A w c (cells (shared ?s1) ! idx w c c))
           [min n (range_start c chunk (Suc a))..<?hi] (cells (shared ?s1))"
      using Suc.hyps(1) [of "Suc a" ?s1] pool1 by blast
    have run: "dispatch (healthy cpus) A n w c active chunk a s = (Inr m, s')"
      using lt False send ih(1)
      by (subst dispatch.simps) (simp add: range_start_def range_end_def)
    have starts: "\<forall>k. a \<le> k \<and> k < m \<longrightarrow> range_start c chunk k < n"
    proof (intro allI impI)
      fix k assume "a \<le> k \<and> k < m"
      then show "range_start c chunk k < n"
        using ih(4) False by (cases "k = a") auto
    qed
    have "a < m" using ih(2) by simp
    then have sent: "sent s' = sent s @ map (\<lambda>k. (k, planned_task n c chunk k)) [a..<m]"
      using ih(9) by (simp add: upt_conv_Cons)
    have mid: "min n (range_start c chunk (Suc a)) = ?b"
      by (simp add: range_start_def range_end_def)
    have "Suc a * chunk \<le> active * chunk" using lt by (intro mult_le_mono1) simp
    then have "?b \<le> ?hi" by (simp add: range_start_def range_end_def)
    moreover have "?a \<le> ?b" using False by (simp add: range_start_def range_end_def)
    ultimately have glue: "[?a..<?b] @ [?b..<?hi] = [?a..<?hi]" by (simp add: upt_glue)
    have "cells (shared s') = fold (eliminate_row A w c ?p) [?b..<?hi] (cells ?R)"
      using ih(10) by (simp add: pivot1 mid)
    also have "\<dots> = fold (eliminate_row A w c ?p) ([?a..<?b] @ [?b..<?hi]) (cells (shared s))"
      by (simp add: cells1)
    finally have "cells (shared s') = fold (eliminate_row A w c ?p) [?a..<?hi] (cells (shared s))"
      by (simp only: glue)
    moreover have "min n ?a = ?a" using False by simp
    ultimately have cells: "cells (shared s') =
        fold (eliminate_row A w c ?p) [min n ?a..<?hi] (cells (shared s))"
      by simp
    show ?thesis
      using run ih(3,5,6,7,8) starts sent cells \<open>a < m\<close> by (intro exI [of _ m] exI [of _ s']) simp
  qed
qed


lemma ceil_chunks_cover:
  assumes "0 < (a :: nat)"
  shows "r \<le> a * ((r + a - 1) div a)"
proof -
  have "r + a - 1 < a + a * ((r + a - 1) div a)"
    using assms by (rule dividend_less_times_div)
  then show ?thesis using assms by linarith
qed

lemma column_loop_healthy:
  assumes "pool (\<lambda>_. Ready) 0 0 s" and "1 \<le> budget" and "budget \<le> length (workers s)"
  shows "\<exists>s'. column_loop (healthy cpus) A n w budget c s =
                 ((case forward_elimination A n w c (cells (shared s)) of
                     Inl e \<Rightarrow> Inl e | Inr d \<Rightarrow> Inr ()), s') \<and>
              (\<forall>d. forward_elimination A n w c (cells (shared s)) = Inr d \<longrightarrow> cells (shared s') = d) \<and>
              pool (\<lambda>_. Ready) 0 0 s' \<and> length (workers s') = length (workers s) \<and>
              mapped s' = mapped s"
  using assms
proof (induction "n - c" arbitrary: c s)
  case 0
  then have "\<not> c < n" by simp
  then have "column_loop (healthy cpus) A n w budget c s = (Inr (), s)"
    by (subst column_loop.simps) simp
  moreover from \<open>\<not> c < n\<close>
  have "forward_elimination A n w c (cells (shared s)) = Inr (cells (shared s))"
    by (subst forward_elimination.simps) simp
  ultimately show ?case using 0 by simp
next
  case (Suc k)
  then have lt: "c < n" by simp
  let ?d = "cells (shared s)"
  let ?p = "?d ! idx w c c"
  show ?case
  proof (cases "tiny A ?p")
    case True
    then have "column_loop (healthy cpus) A n w budget c s = (Inl SingularMatrix, s)"
      using lt by (subst column_loop.simps) simp
    moreover from True have "forward_elimination A n w c ?d = Inl SingularMatrix"
      using lt by (subst forward_elimination.simps) simp
    ultimately show ?thesis using Suc.prems by simp
  next
    case False
    let ?d1 = "fold (eliminate_row A w c ?p) [c + 1..<n] ?d"
    have fwd: "forward_elimination A n w c ?d = forward_elimination A n w (c + 1) ?d1"
      using lt False by (subst forward_elimination.simps) simp
    have "\<exists>s2. (column_loop (healthy cpus) A n w budget c s =
                   column_loop (healthy cpus) A n w budget (c + 1) s2) \<and>
               cells (shared s2) = ?d1 \<and> pool (\<lambda>_. Ready) 0 0 s2 \<and>
               length (workers s2) = length (workers s) \<and> mapped s2 = mapped s"
    proof (cases "n - c - 1 = 0")
      case True
      then have "?d1 = ?d" by simp
      moreover have "column_loop (healthy cpus) A n w budget c s =
                       column_loop (healthy cpus) A n w budget (c + 1) s"
        using lt False True by (subst column_loop.simps) simp
      ultimately show ?thesis using Suc.prems(1) by (intro exI [of _ s]) simp
    next
      case rem: False
      let ?r = "n - c - 1"
      let ?active = "min budget ?r"
      let ?chunk = "(?r + ?active - 1) div ?active"
      have act: "0 < ?active" using rem Suc.prems(2) by simp
      have "?active \<le> length (workers s)" using Suc.prems(3) by simp
      from dispatch_healthy [OF Suc.prems(1) this, of cpus A n w c ?chunk]
      obtain m s1 where d:
        "dispatch (healthy cpus) A n w c ?active ?chunk 0 s = (Inr m, s1)"
        "m \<le> ?active" "pool (\<lambda>_. Ready) 0 m s1"
        "length (workers s1) = length (workers s)" "mapped s1 = mapped s"
        "cells (shared s1) =
           fold (eliminate_row A w c ?p)
             [min n (range_start c ?chunk 0)..<min n (range_start c ?chunk ?active)] ?d"
        by blast
      have "?r \<le> ?active * ?chunk" using act by (rule ceil_chunks_cover)
      then have "n \<le> range_start c ?chunk ?active"
        unfolding range_start_def using lt by linarith
      then have hi: "min n (range_start c ?chunk ?active) = n" by simp
      have lo: "min n (range_start c ?chunk 0) = c + 1" using lt by (simp add: range_start_def)
      have cells1: "cells (shared s1) = ?d1" using d(6) by (simp only: hi lo)
      have "m \<le> length (workers s1)" using d(2,4) Suc.prems(3) by simp
      from collect_healthy [OF d(3) this, of cpus]
      obtain s2 where c:
        "collect (healthy cpus) m 0 s1 = (Inr (), s2)" "pool (\<lambda>_. Ready) 0 0 s2"
        "shared s2 = shared s1" "length (workers s2) = length (workers s1)"
        "mapped s2 = mapped s1"
        by blast
      have "column_loop (healthy cpus) A n w budget c s =
              column_loop (healthy cpus) A n w budget (c + 1) s2"
        using lt False rem d(1) c(1) by (subst column_loop.simps) (simp add: Let_def)
      then show ?thesis using cells1 c(2-5) d(4,5) by (intro exI [of _ s2]) simp
    qed
    then obtain s2 where s2:
      "column_loop (healthy cpus) A n w budget c s =
         column_loop (healthy cpus) A n w budget (c + 1) s2"
      "cells (shared s2) = ?d1" "pool (\<lambda>_. Ready) 0 0 s2"
      "length (workers s2) = length (workers s)" "mapped s2 = mapped s"
      by blast
    have "k = n - (c + 1)" using Suc.hyps(2) by simp
    from Suc.hyps(1) [OF this s2(3) Suc.prems(2)] Suc.prems(3) s2(4)
    obtain s' where
      "column_loop (healthy cpus) A n w budget (c + 1) s2 =
         ((case forward_elimination A n w (c + 1) (cells (shared s2)) of
             Inl e \<Rightarrow> Inl e | Inr d \<Rightarrow> Inr ()), s')"
      "\<forall>d. forward_elimination A n w (c + 1) (cells (shared s2)) = Inr d \<longrightarrow> cells (shared s') = d"
      "pool (\<lambda>_. Ready) 0 0 s'" "length (workers s') = length (workers s2)"
      "mapped s' = mapped s2"
      by auto
    then show ?thesis
      using s2 fwd by (intro exI [of _ s']) simp
  qed
qed


lemma spawn_workers_all:
  assumes "\<forall>i. spawn E i = Spawned" and "i \<le> budget"
  shows "\<exists>s'. spawn_workers E budget i s = (Inr (), s') \<and>
              workers s' = workers s @
                replicate (budget - i) \<lparr>proc = Ready, ack_pipe = [], reaped = False, fds_closed = False\<rparr> \<and>
              shared s' = shared s \<and> mapped s' = mapped s \<and> sent s' = sent s"
  using assms(2)
proof (induction "budget - i" arbitrary: i s)
  case 0
  then have "spawn_workers E budget i s = (Inr (), s)"
    by (subst spawn_workers.simps) simp
  with 0 show ?case by simp
next
  case (Suc k)
  let ?s = "s\<lparr>workers := workers s @ [\<lparr>proc = Ready, ack_pipe = [], reaped = False, fds_closed = False\<rparr>]\<rparr>"
  have lt: "i < budget" using Suc.hyps(2) by simp
  then have step: "spawn_workers E budget i s = spawn_workers E budget (i + 1) ?s"
    using assms(1) by (subst spawn_workers.simps) simp
  have "k = budget - (i + 1)" "i + 1 \<le> budget" using Suc.hyps(2) by simp_all
  from Suc.hyps(1) [OF this, of ?s]
  obtain s' where
    "spawn_workers E budget (i + 1) ?s = (Inr (), s')"
    "workers s' = workers ?s @
       replicate (budget - (i + 1)) \<lparr>proc = Ready, ack_pipe = [], reaped = False, fds_closed = False\<rparr>"
    "shared s' = shared ?s" "mapped s' = mapped ?s" "sent s' = sent ?s"
    by blast
  moreover have "budget - i = Suc (budget - (i + 1))" using lt by simp
  ultimately show ?case
    using step by (intro exI [of _ s']) (simp add: replicate_app_Cons_same)
qed

lemma pool_fresh:
  "workers s = replicate k \<lparr>proc = Ready, ack_pipe = [], reaped = False, fds_closed = False\<rparr>
     \<Longrightarrow> pool (\<lambda>_. Ready) 0 0 s"
  by (simp add: pool_def)

lemma exit_leaves_region:
  "command task = command_code Exit \<Longrightarrow> snd (snd (worker_iteration A w (Some task) ok m)) = m"
  by (simp add: worker_iteration_def)

lemma send_exits_healthy:
  assumes "pool (\<lambda>j. if j < i then Terminated 0 else Ready) 0 i s"
    and "i \<le> nworkers" and "nworkers \<le> length (workers s)"
  shows "\<exists>s'. send_exits (healthy cpus) A w nworkers i s = (Inr (), s') \<and>
              pool (\<lambda>j. if j < nworkers then Terminated 0 else Ready) 0 nworkers s' \<and>
              shared s' = shared s \<and> length (workers s') = length (workers s) \<and>
              mapped s' = mapped s"
  using assms
proof (induction "nworkers - i" arbitrary: i s)
  case 0
  then have "i = nworkers" by simp
  then have "send_exits (healthy cpus) A w nworkers i s = (Inr (), s)"
    by (subst send_exits.simps) simp
  with 0 \<open>i = nworkers\<close> show ?case by simp
next
  case (Suc k)
  then have lt: "i < nworkers" and len: "i < length (workers s)" by simp_all
  let ?st = "\<lambda>j. if j < i then Terminated 0 else Ready"
  let ?task = "\<lparr>command = command_code Exit, column = 0, start_row = 0, end_row = 0\<rparr>"
  let ?s1 = "s\<lparr>shared := shared s,
               workers := (workers s)[i := (workers s ! i)\<lparr>proc := Terminated 0, ack_pipe := [\<lparr>status = 0\<rparr>]\<rparr>],
               sent := sent s @ [(i, ?task)]\<rparr>"
  have send: "send_task (healthy cpus) A w i Exit 0 0 0 s = (Inr (), ?s1)"
    using send_task_healthy [OF Suc.prems(1) len, of cpus A w Exit 0 0 0]
    by (simp add: exit_leaves_region)
  have "?st(i := Terminated 0) = (\<lambda>j. if j < Suc i then Terminated 0 else Ready)"
    by (auto simp: fun_eq_iff)
  then have pool1: "pool (\<lambda>j. if j < Suc i then Terminated 0 else Ready) 0 (Suc i) ?s1"
    using pool_after_send [OF Suc.prems(1) _ len, where q = "Terminated 0" and R = "shared s"
             and X = "sent s @ [(i, ?task)]"]
    by simp
  have "k = nworkers - Suc i" "Suc i \<le> nworkers" "nworkers \<le> length (workers ?s1)"
    using Suc.hyps(2) Suc.prems(3) by simp_all
  from Suc.hyps(1) [OF this(1) pool1 this(2,3)]
  obtain s' where
    "send_exits (healthy cpus) A w nworkers (Suc i) ?s1 = (Inr (), s')"
    "pool (\<lambda>j. if j < nworkers then Terminated 0 else Ready) 0 nworkers s'"
    "shared s' = shared ?s1" "length (workers s') = length (workers ?s1)"
    "mapped s' = mapped ?s1"
    by blast
  then show ?case
    using lt send by (intro exI [of _ s']) (subst send_exits.simps, simp)
qed

lemma reap_workers_healthy:
  assumes "\<forall>j < nworkers. proc (workers s ! j) = Terminated 0"
    and "nworkers \<le> length (workers s)"
  shows "\<exists>s'. reap_workers (healthy cpus) nworkers i s = (Inr (), s') \<and>
              shared s' = shared s \<and> mapped s' = mapped s \<and>
              length (workers s') = length (workers s)"
  using assms
proof (induction "nworkers - i" arbitrary: i s)
  case 0
  then have "reap_workers (healthy cpus) nworkers i s = (Inr (), s)"
    by (subst reap_workers.simps) simp
  then show ?case by simp
next
  case (Suc k)
  then have lt: "i < nworkers" by simp
  let ?s1 = "s\<lparr>workers := (workers s)[i := (workers s ! i)\<lparr>reaped := True, fds_closed := True\<rparr>]\<rparr>"
  have "proc (workers s ! i) = Terminated 0" using Suc.prems(1) lt by simp
  then have step: "reap_workers (healthy cpus) nworkers i s = reap_workers (healthy cpus) nworkers (i + 1) ?s1"
    using lt by (subst reap_workers.simps) (simp add: healthy_def Let_def)
  have "\<forall>j < nworkers. proc (workers ?s1 ! j) = Terminated 0"
    using Suc.prems lt by (simp add: nth_list_update)
  moreover have "k = nworkers - (i + 1)" "nworkers \<le> length (workers ?s1)"
    using Suc.hyps(2) Suc.prems(2) by simp_all
  ultimately obtain s' where
    "reap_workers (healthy cpus) nworkers (i + 1) ?s1 = (Inr (), s')"
    "shared s' = shared ?s1" "mapped s' = mapped ?s1" "length (workers s') = length (workers ?s1)"
    using Suc.hyps(1) [of "i + 1" ?s1] by blast
  then show ?case using step by (intro exI [of _ s']) simp
qed

lemma process_budget_pos: "1 \<le> process_budget_of E m n"
  by (simp add: process_budget_of_def Let_def)

lemma fst_gaussian_parallel:
  "validate_augmented a = Inr () \<Longrightarrow> \<not> unat (rows a) < 2 \<Longrightarrow> mmap_ok E \<Longrightarrow>
     fst (gaussian_parallel E A a m) = fst (parallel_body E A a m (init_sys\<lparr>mapped := True\<rparr>))"
  by (simp add: gaussian_parallel_def split: prod.splits sum.splits error.splits)

lemma parallel_body_healthy:
  assumes "length (data a) = unat (rows a) * unat (cols a)" and "workers s0 = []"
  shows "fst (parallel_body (healthy cpus) A a m s0) =
           (case forward_elimination A (unat (rows a)) (unat (cols a)) 0 (data a) of
              Inl e \<Rightarrow> Inl e
            | Inr d \<Rightarrow> back_substitution A (unat (rows a)) (unat (cols a)) d (unat (rows a))
                         (replicate (unat (rows a)) (fzero A)))"
proof -
  let ?n = "unat (rows a)" and ?w = "unat (cols a)"
  let ?E = "healthy cpus"
  let ?b = "process_budget_of ?E m ?n"
  let ?s1 = "s0\<lparr>shared := \<lparr>cells = data a, stores = []\<rparr>\<rparr>"
  have copy: "copy_in A (?n * ?w) (data a) = data a" using assms by (simp add: copy_in_def)
  have "\<forall>i. spawn ?E i = Spawned" by (simp add: healthy_def)
  from spawn_workers_all [OF this, of 0 ?b ?s1]
  obtain s2 where s2: "spawn_workers ?E ?b 0 ?s1 = (Inr (), s2)"
    "workers s2 = replicate ?b \<lparr>proc = Ready, ack_pipe = [], reaped = False, fds_closed = False\<rparr>"
    "shared s2 = \<lparr>cells = data a, stores = []\<rparr>"
    using assms(2) by auto
  have idle2: "pool (\<lambda>_. Ready) 0 0 s2" using s2(2) by (rule pool_fresh)
  have len2: "?b \<le> length (workers s2)" using s2(2) by simp
  from column_loop_healthy [OF idle2 process_budget_pos len2, of cpus A ?n ?w 0]
  obtain s3 where s3:
    "column_loop ?E A ?n ?w ?b 0 s2 =
       ((case forward_elimination A ?n ?w 0 (data a) of Inl e \<Rightarrow> Inl e | Inr d \<Rightarrow> Inr ()), s3)"
    "\<forall>d. forward_elimination A ?n ?w 0 (data a) = Inr d \<longrightarrow> cells (shared s3) = d"
    "pool (\<lambda>_. Ready) 0 0 s3"
    using s2(3) by auto
  show ?thesis
  proof (cases "forward_elimination A ?n ?w 0 (data a)")
    case (Inl e)
    then show ?thesis using s2(1) s3(1) by (simp add: parallel_body_def Let_def copy)
  next
    case (Inr d)
    then have d: "cells (shared s3) = d" using s3(2) by simp
    have "pool (\<lambda>j. if j < 0 then Terminated 0 else Ready) 0 0 s3" using s3(3) by simp
    from send_exits_healthy [OF this, of "length (workers s3)" cpus A ?w]
    obtain s4 where s4:
      "send_exits ?E A ?w (length (workers s3)) 0 s3 = (Inr (), s4)"
      "pool (\<lambda>j. if j < length (workers s3) then Terminated 0 else Ready) 0 (length (workers s3)) s4"
      "shared s4 = shared s3" "length (workers s4) = length (workers s3)"
      by auto
    from collect_healthy [OF s4(2), of cpus] s4(4)
    obtain s5 where s5:
      "collect ?E (length (workers s4)) 0 s4 = (Inr (), s5)"
      "pool (\<lambda>j. if j < length (workers s3) then Terminated 0 else Ready) 0 0 s5"
      "shared s5 = shared s4" "length (workers s5) = length (workers s4)"
      by auto
    have "\<forall>j < length (workers s5). proc (workers s5 ! j) = Terminated 0"
      using s5(2,4) s4(4) by (simp add: pool_def)
    from reap_workers_healthy [OF this, of cpus 0]
    obtain s6 where s6:
      "reap_workers ?E (length (workers s5)) 0 s5 = (Inr (), s6)" "shared s6 = shared s5"
      by auto
    show ?thesis
      using Inr s2(1) s3(1) s4(1) s5(1) s6(1) d s4(3) s5(3) s6(2)
      by (simp add: parallel_body_def Let_def copy)
  qed
qed

lemma parallel_matches_sequential:
  assumes "length (data a) = unat (rows a) * unat (cols a)"
  shows "fst (gaussian_parallel (healthy cpus) A a m) = gaussian_sequential A a"
proof (cases "validate_augmented a")
  case (Inl e)
  then show ?thesis by (simp add: gaussian_parallel_def gaussian_sequential_def)
next
  case (Inr u)
  show ?thesis
  proof (cases "unat (rows a) < 2")
    case True
    with Inr show ?thesis by (simp add: gaussian_parallel_def)
  next
    case False
    have "mmap_ok (healthy cpus)" by (simp add: healthy_def)
    with Inr False
    have "fst (gaussian_parallel (healthy cpus) A a m) =
            fst (parallel_body (healthy cpus) A a m (init_sys\<lparr>mapped := True\<rparr>))"
      by (intro fst_gaussian_parallel) simp_all
    also have "\<dots> = gaussian_sequential A a"
      using Inr parallel_body_healthy [OF assms, of "init_sys\<lparr>mapped := True\<rparr>" cpus A m]
      by (simp add: gaussian_sequential_def Let_def init_sys_def)
    finally show ?thesis .
  qed
qed

subsection \<open>Workers of one round do not interfere\<close>

text \<open>
  The model runs the task of a worker when it is sent, so the rows of one round are
  reduced in increasing order. This loses nothing: reducing a row reads that row and the
  pivot row and writes that row only, so the reductions of two different rows below the
  pivot commute, and every order of the rows of a round leaves the same values in the
  region.
\<close>

lemma fold_updates_swap:
  assumes "\<forall>k \<in> set ks. \<forall>k' \<in> set ks'. g k \<noteq> h k'"
  shows "fold (\<lambda>k e. e[g k := a k]) ks (fold (\<lambda>k e. e[h k := b k]) ks' d) =
         fold (\<lambda>k e. e[h k := b k]) ks' (fold (\<lambda>k e. e[g k := a k]) ks d)"
  using assms
proof (induction ks arbitrary: d)
  case Nil
  then show ?case by simp
next
  case (Cons k ks)
  have one: "(fold (\<lambda>k e. e[h k := b k]) ks' e)[g k := x] =
             fold (\<lambda>k e. e[h k := b k]) ks' (e[g k := x])" for e x
    using Cons.prems
  proof (induction ks' arbitrary: e)
    case Nil
    then show ?case by simp
  next
    case (Cons k' ks')
    then have "g k \<noteq> h k'" by simp
    then have "e[h k' := b k', g k := x] = e[g k := x, h k' := b k']"
      by (simp add: list_update_swap)
    with Cons show ?case by simp
  qed
  from Cons show ?case by (simp add: one)
qed

lemma eliminate_row_static:
  assumes "r \<noteq> c"
  shows "eliminate_row A w c p r d =
     fold (\<lambda>k e. e[idx w r k := fmsub A (d ! idx w r k) (fdiv A (d ! idx w r c) p) (d ! idx w c k)])
       [c..<w] d"
proof -
  let ?f = "fdiv A (d ! idx w r c) p"
  have "fold (\<lambda>k e. e[idx w r k := fmsub A (e ! idx w r k) ?f (e ! idx w c k)]) ks e =
        fold (\<lambda>k e. e[idx w r k := fmsub A (d ! idx w r k) ?f (d ! idx w c k)]) ks e"
    if "distinct ks" and "\<forall>k \<in> set ks. k < w"
      and "\<forall>k \<in> set ks. e ! idx w r k = d ! idx w r k"
      and "\<forall>k < w. e ! idx w c k = d ! idx w c k"
    for ks e
    using that
  proof (induction ks arbitrary: e)
    case Nil
    then show ?case by simp
  next
    case (Cons k ks)
    let ?e = "e[idx w r k := fmsub A (d ! idx w r k) ?f (d ! idx w c k)]"
    have kw: "k < w" using Cons.prems(2) by simp
    have "idx w r k \<noteq> idx w r k'" if "k' \<in> set ks" for k'
      using that Cons.prems(1) by (auto simp: idx_def)
    then have a: "\<forall>k' \<in> set ks. ?e ! idx w r k' = d ! idx w r k'"
      using Cons.prems(3) by simp
    have "idx w r k \<noteq> idx w c k'" if "k' < w" for k'
    proof
      assume "idx w r k = idx w c k'"
      then have "(r * w + k) div w = (c * w + k') div w" by (simp add: idx_def)
      then show False using kw that assms by simp
    qed
    then have b: "\<forall>k' < w. ?e ! idx w c k' = d ! idx w c k'"
      using Cons.prems(4) by simp
    have "fold (\<lambda>k e. e[idx w r k := fmsub A (e ! idx w r k) ?f (e ! idx w c k)]) ks ?e =
          fold (\<lambda>k e. e[idx w r k := fmsub A (d ! idx w r k) ?f (d ! idx w c k)]) ks ?e"
      using Cons.prems(1,2) a b by (intro Cons.IH) simp_all
    moreover have "e ! idx w r k = d ! idx w r k" "e ! idx w c k = d ! idx w c k"
      using Cons.prems(3,4) kw by simp_all
    ultimately show ?case by simp
  qed
  from this [of "[c..<w]" d] show ?thesis
    by (simp add: eliminate_row_def Let_def)
qed

lemma eliminate_row_elsewhere:
  assumes "\<forall>k. c \<le> k \<and> k < w \<longrightarrow> j \<noteq> idx w r k"
  shows "eliminate_row A w c p r d ! j = d ! j"
proof -
  have "\<forall>k \<in> set [c..<w]. idx w r k \<noteq> j" using assms by auto
  then show ?thesis unfolding eliminate_row_def Let_def by (rule fold_update_other)
qed

lemma idx_rows_apart:
  assumes "k < w" and "k' < w" and "r \<noteq> r'"
  shows "idx w r k \<noteq> idx w r' k'"
proof
  assume "idx w r k = idx w r' k'"
  then have "(r * w + k) div w = (r' * w + k') div w" by (simp add: idx_def)
  then show False using assms by simp
qed

lemma eliminate_rows_commute:
  assumes "r1 \<noteq> c" and "r2 \<noteq> c" and "r1 \<noteq> r2"
  shows "eliminate_row A w c p r1 (eliminate_row A w c p r2 d) =
         eliminate_row A w c p r2 (eliminate_row A w c p r1 d)"
proof -
  let ?U1 = "\<lambda>k e. e[idx w r1 k := fmsub A (d ! idx w r1 k) (fdiv A (d ! idx w r1 c) p) (d ! idx w c k)]"
  let ?U2 = "\<lambda>k e. e[idx w r2 k := fmsub A (d ! idx w r2 k) (fdiv A (d ! idx w r2 c) p) (d ! idx w c k)]"
  let ?d1 = "eliminate_row A w c p r1 d" and ?d2 = "eliminate_row A w c p r2 d"
  have keep2: "?d2 ! idx w r k = d ! idx w r k" if "r \<noteq> r2" "k < w" for r k
    using that by (intro eliminate_row_elsewhere) (auto simp: idx_rows_apart)
  have keep1: "?d1 ! idx w r k = d ! idx w r k" if "r \<noteq> r1" "k < w" for r k
    using that by (intro eliminate_row_elsewhere) (auto simp: idx_rows_apart)
  have same1: "fold (\<lambda>k e. e[idx w r1 k := fmsub A (?d2 ! idx w r1 k) (fdiv A (?d2 ! idx w r1 c) p) (?d2 ! idx w c k)]) [c..<w] e
             = fold ?U1 [c..<w] e" for e
  proof (cases "c < w")
    case True
    show ?thesis
      using assms True by (intro fold_cong refl) (simp_all add: keep2)
  next
    case False
    then show ?thesis by simp
  qed
  have same2: "fold (\<lambda>k e. e[idx w r2 k := fmsub A (?d1 ! idx w r2 k) (fdiv A (?d1 ! idx w r2 c) p) (?d1 ! idx w c k)]) [c..<w] e
             = fold ?U2 [c..<w] e" for e
  proof (cases "c < w")
    case True
    show ?thesis
      using assms True by (intro fold_cong refl) (simp_all add: keep1)
  next
    case False
    then show ?thesis by simp
  qed
  have "\<forall>k \<in> set [c..<w]. \<forall>k' \<in> set [c..<w]. idx w r1 k \<noteq> idx w r2 k'"
    using assms(3) by (simp add: idx_rows_apart)
  then have swap: "fold ?U1 [c..<w] (fold ?U2 [c..<w] d) = fold ?U2 [c..<w] (fold ?U1 [c..<w] d)"
    by (rule fold_updates_swap)
  have d1: "?d1 = fold ?U1 [c..<w] d" and d2: "?d2 = fold ?U2 [c..<w] d"
    by (rule eliminate_row_static [OF assms(1)]) (rule eliminate_row_static [OF assms(2)])
  have "eliminate_row A w c p r1 ?d2 = fold ?U1 [c..<w] ?d2"
    by (subst eliminate_row_static [OF assms(1)]) (rule same1)
  also have "\<dots> = fold ?U2 [c..<w] ?d1"
    using swap by (simp only: d1 [symmetric] d2 [symmetric])
  also have "\<dots> = eliminate_row A w c p r2 ?d1"
    by (subst eliminate_row_static [OF assms(2)]) (rule same2 [symmetric])
  finally show ?thesis .
qed


lemma round_schedule_irrelevant:
  assumes "c \<notin> set rs" and "mset rs' = mset rs"
  shows "fold (eliminate_row A w c p) rs' d = fold (eliminate_row A w c p) rs d"
proof -
  have "eliminate_row A w c p x \<circ> eliminate_row A w c p y =
        eliminate_row A w c p y \<circ> eliminate_row A w c p x"
    if "x \<in> set rs" "y \<in> set rs" for x y
  proof (cases "x = y")
    case True
    then show ?thesis by simp
  next
    case False
    with that assms(1) show ?thesis
      by (auto simp: fun_eq_iff intro: eliminate_rows_commute)
  qed
  then have "fold (eliminate_row A w c p) rs = fold (eliminate_row A w c p) rs'"
    using assms(2) by (intro fold_multiset_equiv) simp_all
  then show ?thesis by simp
qed

text \<open>
  The stores of a worker fall inside the rows of its task, from the pivot column on.
\<close>

lemma stores_worker_row:
  "set (stores (worker_row A w c p r m)) = set (stores m) \<union> {idx w r k |k. c \<le> k \<and> k < w}"
proof -
  have "set (stores (fold (\<lambda>k m. m\<lparr>cells := (cells m)[idx w r k := fmsub A (cells m ! idx w r k) f (cells m ! idx w c k)],
                                   stores := stores m @ [idx w r k]\<rparr>) ks m))
        = set (stores m) \<union> {idx w r k |k. k \<in> set ks}" for ks f
    by (induction ks arbitrary: m) auto
  from this [of _ "[c..<w]"] show ?thesis
    by (simp add: worker_row_def Let_def)
qed

lemma stores_worker_rows:
  "set (stores (fold (worker_row A w c p) rs m)) =
     set (stores m) \<union> {idx w r k |r k. r \<in> set rs \<and> c \<le> k \<and> k < w}"
  by (induction rs arbitrary: m) (auto simp: stores_worker_row)

lemma worker_stays_in_its_rows:
  assumes "command task \<noteq> command_code Exit"
  shows "set (stores (snd (snd (worker_iteration A w (Some task) ok m)))) \<subseteq>
           set (stores m) \<union>
           {idx w r k |r k. start_row task \<le> r \<and> r < end_row task \<and> column task \<le> k \<and> k < w}"
  using assms by (auto simp: worker_iteration_def Let_def stores_worker_rows)

subsection \<open>Well-conditioned systems are solved\<close>

lemma valid_shape:
  assumes "rows a \<noteq> 0" and "unat (cols a) = unat (rows a) + 1"
  shows "validate_augmented a = Inr ()"
proof -
  have "word_of_nat (unat (cols a)) = (word_of_nat (unat (rows a) + 1) :: size_t)"
    using assms(2) by simp
  then have "cols a = rows a + 1" by simp
  with assms(1) show ?thesis by (simp add: validate_augmented_def)
qed







subsection \<open>The worker budget does not change the result\<close>

text \<open>
  C6. For a valid augmented matrix with \<open>n \<ge> 2\<close> rows, \<^verbatim>\<open>gaussian_parallel\<close> with a
  budget of one worker and with a budget of \<open>n - 1\<close> workers return the same outcome,
  element for element, in every arithmetic: the same floating-point values when the
  arithmetic is that of \<^verbatim>\<open>double\<close>.
\<close>

theorem partition_independent:
  assumes "2 \<le> unat (rows a)" and "unat (cols a) = unat (rows a) + 1"
    and "length (data a) = unat (rows a) * unat (cols a)"
  shows "fst (gaussian_parallel (healthy cpus) A a 1) =
         fst (gaussian_parallel (healthy cpus) A a (unat (rows a) - 1))"
  using parallel_matches_sequential [OF assms(3), of cpus A] by simp

theorem partition_independent_witness:
  "2 \<le> unat (rows (fst make_predefined_matrix)) \<and>
   unat (cols (fst make_predefined_matrix)) = unat (rows (fst make_predefined_matrix)) + 1 \<and>
   length (data (fst make_predefined_matrix)) =
     unat (rows (fst make_predefined_matrix)) * unat (cols (fst make_predefined_matrix)) \<and>
   fst (gaussian_parallel (healthy 4) real_arith (fst make_predefined_matrix) 1) =
   fst (gaussian_parallel (healthy 4) real_arith (fst make_predefined_matrix) 2)"
proof -
  have h: "2 \<le> unat (rows (fst make_predefined_matrix))"
    "unat (cols (fst make_predefined_matrix)) = unat (rows (fst make_predefined_matrix)) + 1"
    "length (data (fst make_predefined_matrix)) =
       unat (rows (fst make_predefined_matrix)) * unat (cols (fst make_predefined_matrix))"
    by (simp_all add: make_predefined_matrix_def)
  have "unat (rows (fst make_predefined_matrix)) - 1 = 2" by (simp add: make_predefined_matrix_def)
  with partition_independent [OF h, of 4 real_arith] h show ?thesis by simp
qed

subsection \<open>The predefined test system\<close>

text \<open>
  C9. On the client's predefined 3 by 4 system both entry points succeed, and every
  component of either solution is within \<^verbatim>\<open>1e-6\<close> of the expected \<open>[2, 3, -1]\<close>.
\<close>

theorem predefined_matrix_solved:
  "\<exists>xs ys. gaussian_sequential real_arith (fst make_predefined_matrix) = Inr xs \<and>
     fst (gaussian_parallel (healthy cpus) real_arith (fst make_predefined_matrix) max_processes) = Inr ys \<and>
     list_all2 (\<lambda>x e. \<bar>x - e\<bar> \<le> 1 / 10 ^ 6) xs (snd make_predefined_matrix) \<and>
     list_all2 (\<lambda>y e. \<bar>y - e\<bar> \<le> 1 / 10 ^ 6) ys (snd make_predefined_matrix)"
proof -
  have seq: "gaussian_sequential real_arith (fst make_predefined_matrix) = Inr [2, 3, -1]"
    by code_simp
  have "length (data (fst make_predefined_matrix)) =
          unat (rows (fst make_predefined_matrix)) * unat (cols (fst make_predefined_matrix))"
    by (simp add: make_predefined_matrix_def)
  then have par: "fst (gaussian_parallel (healthy cpus) real_arith (fst make_predefined_matrix) max_processes)
                 = Inr [2, 3, -1]"
    using seq by (simp add: parallel_matches_sequential)
  have "list_all2 (\<lambda>x e. \<bar>x - e\<bar> \<le> 1 / 10 ^ 6) [2, 3, -1 :: real] (snd make_predefined_matrix)"
    by (simp add: make_predefined_matrix_def)
  with seq par show ?thesis by simp
qed

subsection \<open>The number of workers\<close>

lemma send_task_keeps_pool_size:
  "send_task E A w i cmd c a b s = (r, s') \<Longrightarrow> length (workers s') = length (workers s)"
  by (auto simp: send_task_def Let_def split: wstate.splits prod.splits if_splits)

lemma wait_ack_keeps_pool_size:
  "wait_ack E i s = (r, s') \<Longrightarrow> length (workers s') = length (workers s)"
  by (auto simp: wait_ack_def Let_def split: list.splits wstate.splits if_splits)

lemma dispatch_keeps_pool_size:
  "dispatch E A n w c active chunk a s = (r, s') \<Longrightarrow> length (workers s') = length (workers s)"
proof (induction "active - a" arbitrary: a s)
  case 0
  then show ?case by (subst (asm) dispatch.simps) simp
next
  case (Suc k)
  let ?start = "c + 1 + a * chunk"
  obtain x s1 where st: "send_task E A w a Work c ?start (min n (?start + chunk)) s = (x, s1)"
    by fastforce
  then have len: "length (workers s1) = length (workers s)" by (rule send_task_keeps_pool_size)
  have "k = active - (a + 1)" using Suc.hyps(2) by simp
  note ih = Suc.hyps(1) [OF this]
  from Suc.prems show ?case
    using st len ih [of s1]
    by (subst (asm) dispatch.simps) (auto simp: Let_def split: if_splits sum.splits)
qed

lemma collect_keeps_pool_size:
  "collect E m i s = (r, s') \<Longrightarrow> length (workers s') = length (workers s)"
proof (induction "m - i" arbitrary: i s)
  case 0
  then show ?case by (subst (asm) collect.simps) simp
next
  case (Suc k)
  obtain x s1 where st: "wait_ack E i s = (x, s1)" by fastforce
  then have len: "length (workers s1) = length (workers s)" by (rule wait_ack_keeps_pool_size)
  have "k = m - (i + 1)" using Suc.hyps(2) by simp
  note ih = Suc.hyps(1) [OF this]
  from Suc.prems show ?case
    using st len ih [of s1]
    by (subst (asm) collect.simps) (auto split: if_splits sum.splits)
qed

lemma column_loop_keeps_pool_size:
  "column_loop E A n w budget c s = (r, s') \<Longrightarrow> length (workers s') = length (workers s)"
proof (induction "n - c" arbitrary: c s)
  case 0
  then show ?case by (subst (asm) column_loop.simps) simp
next
  case (Suc k)
  let ?r = "n - c - 1"
  let ?active = "min budget ?r"
  let ?chunk = "(?r + ?active - 1) div ?active"
  obtain x s1 where d: "dispatch E A n w c ?active ?chunk 0 s = (x, s1)" by fastforce
  then have len1: "length (workers s1) = length (workers s)" by (rule dispatch_keeps_pool_size)
  have len2: "length (workers s2) = length (workers s)" if "collect E m 0 s1 = (y, s2)" for m y s2
    using collect_keeps_pool_size [OF that] len1 by simp
  have "k = n - (c + 1)" using Suc.hyps(2) by simp
  note ih = Suc.hyps(1) [OF this]
  from Suc.prems show ?case
    using d len1 len2 ih
    by (subst (asm) column_loop.simps)
       (fastforce simp: Let_def split: if_splits sum.splits prod.splits)
qed

lemma send_exits_keeps_pool_size:
  "send_exits E A w m i s = (r, s') \<Longrightarrow> length (workers s') = length (workers s)"
proof (induction "m - i" arbitrary: i s)
  case 0
  then show ?case by (subst (asm) send_exits.simps) simp
next
  case (Suc k)
  obtain x s1 where st: "send_task E A w i Exit 0 0 0 s = (x, s1)" by fastforce
  then have len: "length (workers s1) = length (workers s)" by (rule send_task_keeps_pool_size)
  have "k = m - (i + 1)" using Suc.hyps(2) by simp
  note ih = Suc.hyps(1) [OF this]
  from Suc.prems show ?case
    using st len ih [of s1]
    by (subst (asm) send_exits.simps) (auto split: if_splits sum.splits)
qed

lemma reap_workers_keeps_pool_size:
  "reap_workers E m i s = (r, s') \<Longrightarrow> length (workers s') = length (workers s)"
proof (induction "m - i" arbitrary: i s)
  case 0
  then show ?case by (subst (asm) reap_workers.simps) simp
next
  case (Suc k)
  have "k = m - (i + 1)" using Suc.hyps(2) by simp
  note ih = Suc.hyps(1) [OF this]
  from Suc.prems show ?case
    using ih [of "s\<lparr>workers := (workers s)[i := (workers s ! i)\<lparr>reaped := True, fds_closed := True\<rparr>]\<rparr>"]
    by (subst (asm) reap_workers.simps)
       (auto simp: Let_def split: if_splits wait_outcome.splits wstate.splits)
qed

lemma snd_gaussian_parallel:
  "validate_augmented a = Inr () \<Longrightarrow> \<not> unat (rows a) < 2 \<Longrightarrow> mmap_ok E \<Longrightarrow>
     workers (snd (gaussian_parallel E A a m)) =
     workers (snd (parallel_body E A a m (init_sys\<lparr>mapped := True\<rparr>)))"
  by (simp add: gaussian_parallel_def split: prod.splits sum.splits error.splits)

lemma parallel_body_pool_size:
  assumes "\<forall>i. spawn E i = Spawned" and "workers s0 = []"
  shows "length (workers (snd (parallel_body E A a m s0))) = process_budget_of E m (unat (rows a))"
proof -
  let ?n = "unat (rows a)" and ?w = "unat (cols a)"
  let ?b = "process_budget_of E m ?n"
  let ?s1 = "s0\<lparr>shared := \<lparr>cells = copy_in A (?n * ?w) (data a), stores = []\<rparr>\<rparr>"
  from spawn_workers_all [OF assms(1), of 0 ?b ?s1]
  obtain s2 where s2: "spawn_workers E ?b 0 ?s1 = (Inr (), s2)" "length (workers s2) = ?b"
    using assms(2) by auto
  obtain r3 s3 where s3: "column_loop E A ?n ?w ?b 0 s2 = (r3, s3)" by fastforce
  obtain r4 s4 where s4: "send_exits E A ?w (length (workers s3)) 0 s3 = (r4, s4)" by fastforce
  obtain r5 s5 where s5: "collect E (length (workers s4)) 0 s4 = (r5, s5)" by fastforce
  obtain r6 s6 where s6: "reap_workers E (length (workers s5)) 0 s5 = (r6, s6)" by fastforce
  have "length (workers s3) = ?b" "length (workers s4) = ?b" "length (workers s5) = ?b"
    "length (workers s6) = ?b"
    using column_loop_keeps_pool_size [OF s3] send_exits_keeps_pool_size [OF s4]
      collect_keeps_pool_size [OF s5] reap_workers_keeps_pool_size [OF s6] s2(2)
    by simp_all
  then show ?thesis
    using s2 s3 s4 s5 s6 by (simp add: parallel_body_def Let_def split: sum.splits)
qed

text \<open>
  C5. For a valid augmented matrix with at least two rows, when \<^verbatim>\<open>mmap\<close> and every
  \<^verbatim>\<open>spawn_worker\<close> succeed, the vector \<^verbatim>\<open>workers\<close> ends up with as many processes as
  \<^verbatim>\<open>max_processes\<close> says when that is positive, and as many as there are processors
  otherwise, in both cases at most \<open>rows - 1\<close> and at least 1.
\<close>

theorem worker_count:
  assumes "2 \<le> unat (rows a)" and "unat (cols a) = unat (rows a) + 1"
    and "length (data a) = unat (rows a) * unat (cols a)"
    and "mmap_ok E" and "\<forall>i. spawn E i = Spawned"
  shows "length (workers (snd (gaussian_parallel E A a max_processes))) =
           max 1 (min (if 0 < max_processes then max_processes else nat (cpu_available E))
                      (unat (rows a) - 1))"
proof -
  have "rows a \<noteq> 0" using assms(1) by auto
  then have "validate_augmented a = Inr ()" using assms(2) by (rule valid_shape)
  moreover have "\<not> unat (rows a) < 2" using assms(1) by simp
  ultimately have "workers (snd (gaussian_parallel E A a max_processes)) =
      workers (snd (parallel_body E A a max_processes (init_sys\<lparr>mapped := True\<rparr>)))"
    using assms(4) by (rule snd_gaussian_parallel)
  moreover have "workers (init_sys\<lparr>mapped := True\<rparr> :: 'a sys) = []" by (simp add: init_sys_def)
  from parallel_body_pool_size [OF assms(5) this, of A a max_processes]
  have "length (workers (snd (parallel_body E A a max_processes (init_sys\<lparr>mapped := True\<rparr>)))) =
      process_budget_of E max_processes (unat (rows a))" .
  ultimately have "length (workers (snd (gaussian_parallel E A a max_processes))) =
      process_budget_of E max_processes (unat (rows a))"
    by simp
  also have "\<dots> = max 1 (min (if 0 < max_processes then max_processes else nat (cpu_available E))
                      (unat (rows a) - 1))"
    using assms(1) by (auto simp: process_budget_of_def Let_def)
  finally show ?thesis .
qed

theorem worker_count_witness:
  "2 \<le> unat (rows (fst make_predefined_matrix)) \<and>
   unat (cols (fst make_predefined_matrix)) = unat (rows (fst make_predefined_matrix)) + 1 \<and>
   length (data (fst make_predefined_matrix)) =
     unat (rows (fst make_predefined_matrix)) * unat (cols (fst make_predefined_matrix)) \<and>
   mmap_ok (healthy 8) \<and> (\<forall>i. spawn (healthy 8) i = Spawned) \<and>
   length (workers (snd (gaussian_parallel (healthy 8) real_arith (fst make_predefined_matrix) 0))) = 2"
proof -
  have h: "2 \<le> unat (rows (fst make_predefined_matrix))"
    "unat (cols (fst make_predefined_matrix)) = unat (rows (fst make_predefined_matrix)) + 1"
    "length (data (fst make_predefined_matrix)) =
       unat (rows (fst make_predefined_matrix)) * unat (cols (fst make_predefined_matrix))"
    by (simp_all add: make_predefined_matrix_def)
  have e: "mmap_ok (healthy 8)" "\<forall>i. spawn (healthy 8) i = Spawned"
    by (simp_all add: healthy_def)
  have "unat (rows (fst make_predefined_matrix)) = 3" "cpu_available (healthy 8) = 8"
    by (simp_all add: make_predefined_matrix_def healthy_def)
  with worker_count [OF h e, of real_arith 0] h e show ?thesis by simp
qed

subsection \<open>The row ranges of a column round\<close>






subsection \<open>A singular pivot in the parallel engine\<close>

text \<open>
  C2. The run of \<^verbatim>\<open>gaussian_parallel\<close> on \<open>[[0, 1, 1], [1, 1, 2]]\<close>: the first pivot is
  zero, the call throws \<open>SingularMatrix\<close>, and at that moment the one worker that was
  spawned is still in its \<open>Ready\<close> loop, has been sent no \<^verbatim>\<open>Exit\<close> task, has not been
  reaped, and its descriptors are open. Only the shared region has been released.
\<close>

theorem singular_pivot_leaks_workers:
  "gaussian_parallel (healthy 4) real_arith \<lparr>rows = 2, cols = 3, data = [0, 1, 1, 1, 1, 2]\<rparr> 0 =
     (Inl SingularMatrix,
      \<lparr>mapped = False, shared = \<lparr>cells = [0, 1, 1, 1, 1, 2], stores = []\<rparr>,
       workers = [\<lparr>proc = Ready, ack_pipe = [], reaped = False, fds_closed = False\<rparr>],
       sent = [], acks_read = 0\<rparr>)"
  by code_simp

subsection \<open>Shape errors\<close>

text \<open>
  C4. A matrix with no rows, or whose column count is not \<open>rows + 1\<close>, is rejected with
  \<open>InvalidShape\<close> by both entry points, and \<^verbatim>\<open>gaussian_parallel\<close> has then touched no
  resource: nothing is mapped, no worker exists, nothing was copied or sent.
\<close>

theorem invalid_shape_fails_fast:
  "rows a = 0 \<or> cols a \<noteq> rows a + 1 \<Longrightarrow>
     gaussian_sequential A a = Inl InvalidShape \<and>
     gaussian_parallel E A a max_processes = (Inl InvalidShape, init_sys)"
  by (auto simp: gaussian_sequential_def gaussian_parallel_def validate_augmented_def)

theorem invalid_shape_fails_fast_witness:
  "(rows \<lparr>rows = 2, cols = 2, data = [1, 2, 3, 4 :: real]\<rparr> = 0 \<or>
    cols \<lparr>rows = 2, cols = 2, data = [1, 2, 3, 4 :: real]\<rparr> \<noteq>
      rows \<lparr>rows = 2, cols = 2, data = [1, 2, 3, 4 :: real]\<rparr> + 1) \<and>
   gaussian_sequential real_arith \<lparr>rows = 2, cols = 2, data = [1, 2, 3, 4]\<rparr> = Inl InvalidShape \<and>
   gaussian_parallel (healthy 4) real_arith \<lparr>rows = 2, cols = 2, data = [1, 2, 3, 4]\<rparr> 0
     = (Inl InvalidShape, init_sys)"
  using invalid_shape_fails_fast
          [of "\<lparr>rows = 2, cols = 2, data = [1, 2, 3, 4 :: real]\<rparr>" real_arith "healthy 4" 0]
  by simp

subsection \<open>Systems of one equation\<close>

lemma unat_less_two: "unat (r :: size_t) < 2 \<longleftrightarrow> r < 2"
  by (simp add: word_less_nat_alt)

text \<open>
  C8. For a valid augmented matrix with fewer than two rows \<^verbatim>\<open>gaussian_parallel\<close> returns
  what \<^verbatim>\<open>gaussian_sequential\<close> returns and leaves the system untouched (no region, no
  workers); on \<open>[[5, 10]]\<close> both entry points return \<open>[2]\<close>.
\<close>

theorem single_row_delegates:
  "(rows a \<noteq> 0 \<and> cols a = rows a + 1 \<and> rows a < 2 \<longrightarrow>
      gaussian_parallel E A a max_processes = (gaussian_sequential A a, init_sys)) \<and>
   gaussian_sequential real_arith \<lparr>rows = 1, cols = 2, data = [5, 10]\<rparr> = Inr [2] \<and>
   gaussian_parallel E' real_arith \<lparr>rows = 1, cols = 2, data = [5, 10]\<rparr> max_processes'
     = (Inr [2], init_sys)"
proof -
  have seq: "gaussian_sequential real_arith \<lparr>rows = 1, cols = 2, data = [5, 10]\<rparr> = Inr [2]"
    by (simp add: gaussian_sequential_def validate_augmented_def real_arith_def idx_def
          forward_elimination.simps)
  have deleg: "gaussian_parallel F B b m = (gaussian_sequential B b, init_sys)"
    if "rows b \<noteq> 0" "cols b = rows b + 1" "rows b < 2"
    for F and B :: "'b arith" and b m
    using that by (simp add: gaussian_parallel_def validate_augmented_def unat_less_two)
  have "gaussian_parallel E' real_arith \<lparr>rows = 1, cols = 2, data = [5, 10]\<rparr> max_processes'
          = (Inr [2], init_sys)"
    using deleg [of "\<lparr>rows = 1, cols = 2, data = [5, 10 :: real]\<rparr>" E' real_arith max_processes'] seq
    by simp
  with seq deleg [of a E A max_processes] show ?thesis by blast
qed

theorem single_row_delegates_witness:
  "rows \<lparr>rows = 1, cols = 2, data = [5, 10 :: real]\<rparr> \<noteq> 0 \<and>
   cols \<lparr>rows = 1, cols = 2, data = [5, 10 :: real]\<rparr> = rows \<lparr>rows = 1, cols = 2, data = [5, 10 :: real]\<rparr> + 1 \<and>
   rows \<lparr>rows = 1, cols = 2, data = [5, 10 :: real]\<rparr> < 2 \<and>
   gaussian_parallel (healthy 8) real_arith \<lparr>rows = 1, cols = 2, data = [5, 10]\<rparr> 3
     = (gaussian_sequential real_arith \<lparr>rows = 1, cols = 2, data = [5, 10]\<rparr>, init_sys)"
  using single_row_delegates
          [of "\<lparr>rows = 1, cols = 2, data = [5, 10 :: real]\<rparr>" "healthy 8" real_arith 3]
  by simp

subsection \<open>The worker\<close>

text \<open>
  C10. A worker that reads a task which is not \<^verbatim>\<open>Exit\<close> and whose \<open>start_row\<close> is not below
  its \<open>end_row\<close> leaves the shared region as it is: no cell changes and no store is
  performed. The acknowledgement it writes has status 0, and once that write has
  succeeded the process is back in its \<open>Ready\<close> loop (a failed write ends it with
  \<^verbatim>\<open>_exit(1)\<close>).
\<close>

theorem empty_range_task_is_a_no_op:
  "command task \<noteq> command_code Exit \<Longrightarrow> end_row task \<le> start_row task \<Longrightarrow>
     worker_iteration A width (Some task) wr_ok m =
       (if wr_ok then (Ready, Some \<lparr>status = 0\<rparr>, m) else (Terminated 1, None, m))"
  by (simp add: worker_iteration_def)

theorem empty_range_task_is_a_no_op_witness:
  "command \<lparr>command = command_code Work, column = 0, start_row = 2, end_row = 2\<rparr> \<noteq> command_code Exit \<and>
   end_row \<lparr>command = command_code Work, column = 0, start_row = 2, end_row = 2\<rparr>
     \<le> start_row \<lparr>command = command_code Work, column = 0, start_row = 2, end_row = 2\<rparr> \<and>
   worker_iteration real_arith 3
       (Some \<lparr>command = command_code Work, column = 0, start_row = 2, end_row = 2\<rparr>) True
       \<lparr>cells = [1, 2, 3, 4, 5, 6], stores = []\<rparr>
     = (Ready, Some \<lparr>status = 0\<rparr>, \<lparr>cells = [1, 2, 3, 4, 5, 6], stores = []\<rparr>)"
  using empty_range_task_is_a_no_op
          [of "\<lparr>command = command_code Work, column = 0, start_row = 2, end_row = 2\<rparr>"
              real_arith 3 True "\<lparr>cells = [1, 2, 3, 4, 5, 6], stores = []\<rparr>"]
  by simp

subsection \<open>The orchestrator never waits in vain\<close>

text \<open>
  Whatever the environment does, every \<^verbatim>\<open>wait_ack\<close> of \<^verbatim>\<open>gaussian_parallel\<close> finds an
  acknowledgement or the end-of-file of a dead worker, and every \<^verbatim>\<open>waitpid\<close> a process
  that has exited: with workers that run \<^verbatim>\<open>worker_loop\<close> the call returns or throws.
\<close>

lemma worker_iteration_answers:
  "worker_iteration A w rd ok m = (st, ack, m') \<Longrightarrow> st = Ready \<Longrightarrow> ack \<noteq> None"
  by (auto simp: worker_iteration_def Let_def split: option.splits if_splits)

lemma worker_iteration_exit:
  "worker_iteration A w rd ok m = (st, ack, m') \<Longrightarrow>
     (\<forall>task. rd = Some task \<longrightarrow> command task = command_code Exit) \<Longrightarrow> st \<noteq> Ready"
  by (auto simp: worker_iteration_def Let_def split: option.splits if_splits)

lemma send_task_effect:
  assumes "send_task E A w i cmd c a b s = (r, s')"
  shows "r \<noteq> Inl NeverReturns"
    and "j \<noteq> i \<Longrightarrow> workers s' ! j = workers s ! j"
    and "r = Inr u \<Longrightarrow> i < length (workers s) \<Longrightarrow> answered i s'"
    and "r = Inr u \<Longrightarrow> i < length (workers s) \<Longrightarrow> cmd = Exit \<Longrightarrow> proc (workers s' ! i) \<noteq> Ready"
proof -
  show "r \<noteq> Inl NeverReturns"
    using assms by (auto simp: send_task_def Let_def split: wstate.splits prod.splits if_splits)
  show "workers s' ! j = workers s ! j" if "j \<noteq> i"
    using assms that by (auto simp: send_task_def Let_def split: wstate.splits prod.splits if_splits)
  show "answered i s'" if "r = Inr u" "i < length (workers s)"
    using assms that
    by (auto simp: send_task_def Let_def answered_def dest: worker_iteration_answers
             split: wstate.splits prod.splits if_splits option.splits)
  show "proc (workers s' ! i) \<noteq> Ready" if "r = Inr u" "i < length (workers s)" "cmd = Exit"
    using assms that
    by (auto simp: send_task_def Let_def dest!: worker_iteration_exit
             split: wstate.splits prod.splits if_splits)
qed

lemma wait_ack_effect:
  assumes "wait_ack E i s = (r, s')"
  shows "answered i s \<Longrightarrow> r \<noteq> Inl NeverReturns"
    and "j \<noteq> i \<Longrightarrow> workers s' ! j = workers s ! j"
    and "proc (workers s' ! j) = proc (workers s ! j)"
proof -
  show "r \<noteq> Inl NeverReturns" if "answered i s"
    using assms that
    by (auto simp: wait_ack_def Let_def answered_def split: list.splits wstate.splits if_splits)
  show "workers s' ! j = workers s ! j" if "j \<noteq> i"
    using assms that
    by (auto simp: wait_ack_def Let_def split: list.splits wstate.splits if_splits)
  show "proc (workers s' ! j) = proc (workers s ! j)"
    using assms
    by (cases "i < length (workers s)"; cases "j = i")
       (auto simp: wait_ack_def Let_def list_update_beyond split: list.splits wstate.splits if_splits)
qed


lemma dispatch_effect:
  assumes "dispatch E A n w c active chunk a s = (r, s')"
    and "active \<le> length (workers s)" and "\<forall>i < a. answered i s"
  shows "r \<noteq> Inl NeverReturns \<and> (\<forall>m. r = Inr m \<longrightarrow> m \<le> max a active \<and> (\<forall>i < m. answered i s'))"
  using assms
proof (induction "active - a" arbitrary: a s)
  case 0
  then show ?case by (subst (asm) dispatch.simps) auto
next
  case (Suc k)
  then have lt: "a < active" by simp
  let ?start = "c + 1 + a * chunk"
  obtain x s1 where st: "send_task E A w a Work c ?start (min n (?start + chunk)) s = (x, s1)"
    by fastforce
  note eff = send_task_effect [OF st]
  have len: "length (workers s1) = length (workers s)"
    using st by (rule send_task_keeps_pool_size)
  show ?case
  proof (cases "n \<le> ?start")
    case True
    with Suc.prems(1) lt have "r = Inr a \<and> s' = s" by (subst (asm) dispatch.simps) auto
    with Suc.prems(3) show ?thesis by simp
  next
    case False
    show ?thesis
    proof (cases x)
      case (Inl e)
      with Suc.prems(1) lt False st have "r = Inl e" by (subst (asm) dispatch.simps) simp
      with eff(1) Inl show ?thesis by simp
    next
      case (Inr u)
      with Suc.prems(1) lt False st
      have rec: "dispatch E A n w c active chunk (a + 1) s1 = (r, s')"
        by (subst (asm) dispatch.simps) simp
      have "answered i s1" if "i < a + 1" for i
      proof (cases "i = a")
        case True
        with eff(3) [OF Inr] lt Suc.prems(2) show ?thesis by simp
      next
        case False
        with that have "i < a" by simp
        then have "answered i s" using Suc.prems(3) by simp
        with eff(2) [OF False] show ?thesis by (simp add: answered_def)
      qed
      then have ans1: "\<forall>i < a + 1. answered i s1" by blast
      have k: "k = active - (a + 1)" and len1: "active \<le> length (workers s1)"
        using Suc.hyps(2) Suc.prems(2) len by simp_all
      have "r \<noteq> Inl NeverReturns \<and>
          (\<forall>m. r = Inr m \<longrightarrow> m \<le> max (a + 1) active \<and> (\<forall>i < m. answered i s'))"
        using k rec len1 ans1 by (rule Suc.hyps(1))
      moreover have "max (a + 1) active = max a active" using lt by simp
      ultimately show ?thesis by simp
    qed
  qed
qed

lemma collect_effect:
  assumes "collect E m i s = (r, s')"
    and "\<forall>j. i \<le> j \<and> j < m \<longrightarrow> answered j s"
  shows "r \<noteq> Inl NeverReturns \<and> (\<forall>j. proc (workers s' ! j) = proc (workers s ! j))"
  using assms
proof (induction "m - i" arbitrary: i s)
  case 0
  then show ?case by (subst (asm) collect.simps) auto
next
  case (Suc k)
  then have lt: "i < m" by simp
  obtain x s1 where st: "wait_ack E i s = (x, s1)" by fastforce
  note eff = wait_ack_effect [OF st]
  have ans: "answered i s" using Suc.prems(2) lt by simp
  show ?case
  proof (cases x)
    case (Inl e)
    with Suc.prems(1) lt st have "r = Inl e \<and> s' = s1" by (subst (asm) collect.simps) auto
    with eff(1) [OF ans] eff(3) Inl show ?thesis by simp
  next
    case (Inr u)
    with Suc.prems(1) lt st have rec: "collect E m (i + 1) s1 = (r, s')"
      by (subst (asm) collect.simps) simp
    have ans1: "\<forall>j. i + 1 \<le> j \<and> j < m \<longrightarrow> answered j s1"
    proof (intro allI impI)
      fix j assume j: "i + 1 \<le> j \<and> j < m"
      then have "j \<noteq> i" by simp
      then have "workers s1 ! j = workers s ! j" by (rule eff(2))
      moreover have "answered j s" using Suc.prems(2) j by simp
      ultimately show "answered j s1" by (simp add: answered_def)
    qed
    have k: "k = m - (i + 1)" using Suc.hyps(2) by simp
    have "r \<noteq> Inl NeverReturns \<and> (\<forall>j. proc (workers s' ! j) = proc (workers s1 ! j))"
      using k rec ans1 by (rule Suc.hyps(1))
    with eff(3) show ?thesis by simp
  qed
qed

lemma column_loop_effect:
  assumes "column_loop E A n w budget c s = (r, s')" and "budget \<le> length (workers s)"
  shows "r \<noteq> Inl NeverReturns"
  using assms
proof (induction "n - c" arbitrary: c s)
  case 0
  then show ?case by (subst (asm) column_loop.simps) auto
next
  case (Suc k)
  then have lt: "c < n" by simp
  let ?r = "n - c - 1"
  let ?active = "min budget ?r"
  let ?chunk = "(?r + ?active - 1) div ?active"
  have k: "k = n - (c + 1)" using Suc.hyps(2) by simp
  show ?case
  proof (cases "tiny A (cells (shared s) ! idx w c c)")
    case True
    with Suc.prems(1) lt show ?thesis by (subst (asm) column_loop.simps) auto
  next
    case False
    show ?thesis
    proof (cases "?r = 0")
      case True
      with Suc.prems(1) lt False have "column_loop E A n w budget (c + 1) s = (r, s')"
        by (subst (asm) column_loop.simps) simp
      from Suc.hyps(1) [OF k this Suc.prems(2)] show ?thesis .
    next
      case rem: False
      obtain x s1 where d: "dispatch E A n w c ?active ?chunk 0 s = (x, s1)" by fastforce
      have "?active \<le> length (workers s)" using Suc.prems(2) by simp
      from dispatch_effect [OF d this]
      have x: "x \<noteq> Inl NeverReturns" and ans: "\<forall>m. x = Inr m \<longrightarrow> (\<forall>i < m. answered i s1)"
        by simp_all
      have len1: "length (workers s1) = length (workers s)"
        using d by (rule dispatch_keeps_pool_size)
      show ?thesis
      proof (cases x)
        case (Inl e)
        with Suc.prems(1) lt False rem d have "r = Inl e"
          by (subst (asm) column_loop.simps) (simp add: Let_def)
        with x Inl show ?thesis by simp
      next
        case (Inr m)
        obtain y s2 where cl: "collect E m 0 s1 = (y, s2)" by fastforce
        have "\<forall>j. 0 \<le> j \<and> j < m \<longrightarrow> answered j s1" using ans Inr by simp
        from collect_effect [OF cl this] have y: "y \<noteq> Inl NeverReturns" by simp
        have len2: "length (workers s2) = length (workers s)"
          using collect_keeps_pool_size [OF cl] len1 by simp
        show ?thesis
        proof (cases y)
          case (Inl e)
          with Suc.prems(1) lt False rem d Inr cl have "r = Inl e"
            by (subst (asm) column_loop.simps) (simp add: Let_def)
          with y Inl show ?thesis by simp
        next
          case Inr2: (Inr u)
          with Suc.prems(1) lt False rem d Inr cl
          have "column_loop E A n w budget (c + 1) s2 = (r, s')"
            by (subst (asm) column_loop.simps) (simp add: Let_def)
          from Suc.hyps(1) [OF k this] Suc.prems(2) len2 show ?thesis by simp
        qed
      qed
    qed
  qed
qed


lemma send_exits_effect:
  assumes "send_exits E A w nworkers i s = (r, s')" and "nworkers \<le> length (workers s)"
    and "\<forall>j < i. proc (workers s ! j) \<noteq> Ready" and "i \<le> nworkers"
  shows "r \<noteq> Inl NeverReturns \<and>
         (\<forall>u. r = Inr u \<longrightarrow> (\<forall>j < nworkers. proc (workers s' ! j) \<noteq> Ready))"
  using assms
proof (induction "nworkers - i" arbitrary: i s)
  case 0
  then have "i = nworkers" by simp
  with "0.prems"(1) have "r = Inr () \<and> s' = s" by (subst (asm) send_exits.simps) auto
  with "0.prems"(3) \<open>i = nworkers\<close> show ?case by simp
next
  case (Suc k)
  then have lt: "i < nworkers" by simp
  obtain x s1 where st: "send_task E A w i Exit 0 0 0 s = (x, s1)" by fastforce
  note eff = send_task_effect [OF st]
  have len: "length (workers s1) = length (workers s)"
    using st by (rule send_task_keeps_pool_size)
  show ?case
  proof (cases x)
    case (Inl e)
    with Suc.prems(1) lt st have "r = Inl e" by (subst (asm) send_exits.simps) simp
    with eff(1) Inl show ?thesis by simp
  next
    case (Inr u)
    with Suc.prems(1) lt st have rec: "send_exits E A w nworkers (i + 1) s1 = (r, s')"
      by (subst (asm) send_exits.simps) simp
    have gone: "\<forall>j < i + 1. proc (workers s1 ! j) \<noteq> Ready"
    proof (intro allI impI)
      fix j assume j: "j < i + 1"
      show "proc (workers s1 ! j) \<noteq> Ready"
      proof (cases "j = i")
        case True
        with eff(4) [OF Inr _ refl] lt Suc.prems(2) show ?thesis by simp
      next
        case False
        with j have "j < i" by simp
        with Suc.prems(3) eff(2) [OF False] show ?thesis by simp
      qed
    qed
    have k: "k = nworkers - (i + 1)" and len1: "nworkers \<le> length (workers s1)"
      and le: "i + 1 \<le> nworkers"
      using Suc.hyps(2) Suc.prems(2) len lt by simp_all
    show ?thesis using k rec len1 gone le by (rule Suc.hyps(1))
  qed
qed

lemma reap_workers_effect:
  assumes "reap_workers E nworkers i s = (r, s')"
    and "\<forall>j < nworkers. proc (workers s ! j) \<noteq> Ready" and "nworkers \<le> length (workers s)"
  shows "r \<noteq> Inl NeverReturns"
  using assms
proof (induction "nworkers - i" arbitrary: i s)
  case 0
  then show ?case by (subst (asm) reap_workers.simps) auto
next
  case (Suc k)
  then have lt: "i < nworkers" by simp
  let ?s1 = "s\<lparr>workers := (workers s)[i := (workers s ! i)\<lparr>reaped := True, fds_closed := True\<rparr>]\<rparr>"
  have live: "proc (workers s ! i) \<noteq> Ready" using Suc.prems(2) lt by simp
  show ?case
  proof (cases "reap_workers E nworkers (i + 1) ?s1 = (r, s')")
    case True
    have "\<forall>j < nworkers. proc (workers ?s1 ! j) \<noteq> Ready"
      using Suc.prems(2,3) lt by (simp add: nth_list_update)
    moreover have "k = nworkers - (i + 1)" "nworkers \<le> length (workers ?s1)"
      using Suc.hyps(2) Suc.prems(3) by simp_all
    ultimately show ?thesis using Suc.hyps(1) [OF _ True] by simp
  next
    case False
    with Suc.prems(1) lt live show ?thesis
      by (subst (asm) reap_workers.simps)
         (auto simp: Let_def split: wait_outcome.splits wstate.splits if_splits)
  qed
qed

lemma spawn_workers_effect:
  assumes "spawn_workers E budget i s = (r, s')"
  shows "r \<noteq> Inl NeverReturns \<and>
         (\<forall>u. r = Inr u \<longrightarrow> length (workers s') = length (workers s) + (budget - i))"
  using assms
proof (induction "budget - i" arbitrary: i s)
  case 0
  then show ?case by (subst (asm) spawn_workers.simps) auto
next
  case (Suc k)
  then have lt: "i < budget" by simp
  let ?s1 = "s\<lparr>workers := workers s @ [\<lparr>proc = Ready, ack_pipe = [], reaped = False, fds_closed = False\<rparr>]\<rparr>"
  show ?case
  proof (cases "spawn E i")
    case Spawned
    with Suc.prems lt have rec: "spawn_workers E budget (i + 1) ?s1 = (r, s')"
      by (subst (asm) spawn_workers.simps) simp
    have "k = budget - (i + 1)" using Suc.hyps(2) by simp
    from Suc.hyps(1) [OF this rec] lt show ?thesis by auto
  next
    case PipeFails
    with Suc.prems lt show ?thesis by (subst (asm) spawn_workers.simps) auto
  next
    case ForkFails
    with Suc.prems lt show ?thesis by (subst (asm) spawn_workers.simps) auto
  qed
qed

lemma back_substitution_throws:
  "back_substitution A n w d i sol = Inl e \<Longrightarrow> e = SingularMatrix"
  by (induction i arbitrary: sol) (auto simp: Let_def split: if_splits)

lemma forward_elimination_throws:
  "forward_elimination A n w c d = Inl e \<Longrightarrow> e = SingularMatrix"
proof (induction "n - c" arbitrary: c d)
  case 0
  then show ?case by (subst (asm) forward_elimination.simps) simp
next
  case (Suc k)
  have k: "k = n - (c + 1)" using Suc.hyps(2) by simp
  from Suc.prems Suc.hyps(1) [OF k] show ?case
    by (subst (asm) forward_elimination.simps) (auto simp: Let_def split: if_splits)
qed

lemma gaussian_sequential_throws:
  "gaussian_sequential A a = Inl e \<Longrightarrow> e = InvalidShape \<or> e = SingularMatrix"
  by (auto simp: gaussian_sequential_def validate_augmented_def Let_def
           dest: forward_elimination_throws back_substitution_throws
           split: if_splits sum.splits)

lemma parallel_body_returns:
  assumes "workers s0 = []"
  shows "fst (parallel_body E A a m s0) \<noteq> Inl NeverReturns"
proof -
  let ?n = "unat (rows a)" and ?w = "unat (cols a)"
  let ?b = "process_budget_of E m ?n"
  let ?s1 = "s0\<lparr>shared := \<lparr>cells = copy_in A (?n * ?w) (data a), stores = []\<rparr>\<rparr>"
  obtain r2 s2 where s2: "spawn_workers E ?b 0 ?s1 = (r2, s2)" by fastforce
  obtain r3 s3 where s3: "column_loop E A ?n ?w ?b 0 s2 = (r3, s3)" by fastforce
  obtain r4 s4 where s4: "send_exits E A ?w (length (workers s3)) 0 s3 = (r4, s4)" by fastforce
  obtain r5 s5 where s5: "collect E (length (workers s4)) 0 s4 = (r5, s5)" by fastforce
  obtain r6 s6 where s6: "reap_workers E (length (workers s5)) 0 s5 = (r6, s6)" by fastforce
  have body: "fst (parallel_body E A a m s0) =
      (case r2 of Inl e \<Rightarrow> Inl e | Inr _ \<Rightarrow>
       case r3 of Inl e \<Rightarrow> Inl e | Inr _ \<Rightarrow>
       case r4 of Inl e \<Rightarrow> Inl e | Inr _ \<Rightarrow>
       case r5 of Inl e \<Rightarrow> Inl e | Inr _ \<Rightarrow>
       case r6 of Inl e \<Rightarrow> Inl e
       | Inr _ \<Rightarrow> back_substitution A ?n ?w (cells (shared s6)) ?n (replicate ?n (fzero A)))"
    using s2 s3 s4 s5 s6 by (simp add: parallel_body_def Let_def split: sum.splits)
  from spawn_workers_effect [OF s2] assms
  have r2: "r2 \<noteq> Inl NeverReturns" and len2: "\<forall>u. r2 = Inr u \<longrightarrow> length (workers s2) = ?b"
    by simp_all
  have r3: "r3 \<noteq> Inl NeverReturns" if "r2 = Inr u" for u
    using column_loop_effect [OF s3] len2 that by simp
  from send_exits_effect [OF s4]
  have r4: "r4 \<noteq> Inl NeverReturns"
    and dead4: "\<forall>u. r4 = Inr u \<longrightarrow> (\<forall>j < length (workers s3). proc (workers s4 ! j) \<noteq> Ready)"
    by simp_all
  have len4: "length (workers s4) = length (workers s3)"
    using s4 by (rule send_exits_keeps_pool_size)
  have len5: "length (workers s5) = length (workers s4)"
    using s5 by (rule collect_keeps_pool_size)
  have r5: "r5 \<noteq> Inl NeverReturns"
    and dead5: "\<forall>j < length (workers s5). proc (workers s5 ! j) \<noteq> Ready" if "r4 = Inr u" for u
  proof -
    have "\<forall>j. 0 \<le> j \<and> j < length (workers s4) \<longrightarrow> answered j s4"
      using dead4 that len4 by (simp add: answered_def)
    from collect_effect [OF s5 this]
    show "r5 \<noteq> Inl NeverReturns" "\<forall>j < length (workers s5). proc (workers s5 ! j) \<noteq> Ready"
      using dead4 that len4 len5 by simp_all
  qed
  have r6: "r6 \<noteq> Inl NeverReturns" if "r4 = Inr u" for u
    using reap_workers_effect [OF s6 dead5 [OF that]] by simp
  have bs: "back_substitution A ?n ?w (cells (shared s6)) ?n (replicate ?n (fzero A)) \<noteq> Inl NeverReturns"
    using back_substitution_throws by fastforce
  show ?thesis
    unfolding body using r2 r3 r4 r5 r6 bs by (auto split: sum.splits)
qed

lemma gaussian_parallel_returns:
  "fst (gaussian_parallel E A a m) \<noteq> Inl NeverReturns"
proof -
  have "workers (init_sys\<lparr>mapped := True\<rparr> :: 'a sys) = []" by (simp add: init_sys_def)
  from parallel_body_returns [OF this, of E A a m] show ?thesis
    by (auto simp: gaussian_parallel_def validate_augmented_def
             dest: gaussian_sequential_throws split: prod.splits sum.splits error.splits if_splits)
qed

subsection \<open>The shared region is released\<close>

text \<open>
  C7. However \<^verbatim>\<open>gaussian_parallel\<close> is left, by its \<^verbatim>\<open>return\<close> or by any of its
  exceptions (a bad shape, a singular pivot, a failed \<^verbatim>\<open>mmap\<close>, \<^verbatim>\<open>pipe\<close>, \<^verbatim>\<open>fork\<close>, read,
  write or \<^verbatim>\<open>waitpid\<close>, a failed worker), and whatever the environment does, the shared
  region is not mapped in the calling process afterwards.
\<close>

theorem region_released_on_every_exit:
  "\<not> mapped (snd (gaussian_parallel E A a max_processes))"
proof -
  have "fst (gaussian_parallel E A a max_processes) \<noteq> Inl NeverReturns"
    by (rule gaussian_parallel_returns)
  then show ?thesis
    by (auto simp: gaussian_parallel_def init_sys_def
             split: sum.splits prod.splits error.splits if_splits)
qed

theorem region_released_on_every_exit_witness:
  "fst (gaussian_parallel ((healthy 2)\<lparr>spawn := (\<lambda>i. if i = 0 then Spawned else ForkFails)\<rparr>)
          real_arith (fst make_predefined_matrix) 0) = Inl ForkFailed \<and>
   \<not> mapped (snd (gaussian_parallel ((healthy 2)\<lparr>spawn := (\<lambda>i. if i = 0 then Spawned else ForkFails)\<rparr>)
                    real_arith (fst make_predefined_matrix) 0))"
proof -
  have run: "fst (gaussian_parallel ((healthy 2)\<lparr>spawn := (\<lambda>i. if i = 0 then Spawned else ForkFails)\<rparr>)
                real_arith (fst make_predefined_matrix) 0) = Inl ForkFailed"
    by (simp add: gaussian_parallel_def validate_augmented_def parallel_body_def healthy_def
          init_sys_def process_budget_of_def make_predefined_matrix_def spawn_workers.simps)
  with region_released_on_every_exit
         [of "(healthy 2)\<lparr>spawn := (\<lambda>i. if i = 0 then Spawned else ForkFails)\<rparr>"
             real_arith "fst make_predefined_matrix" 0]
  show ?thesis by simp
qed

end
